theory Spec2Isabelle
  imports Complex_Main
begin

section \<open>Numbers\<close>

text \<open>
  The program computes with \<^verbatim>\<open>size_t\<close>, \<^verbatim>\<open>ssize_t\<close>, \<^verbatim>\<open>int32_t\<close>, \<^verbatim>\<open>double\<close> and
  \<^verbatim>\<open>float\<close>. Sizes and counts are \<open>nat\<close>, signed positions are \<open>int\<close>; where the source
  subtracts unsigned values and reads the result as signed, the wrap-around modulo \<open>2 ^ 64\<close>
  is written out (\<open>to_size\<close>, \<open>to_ssize\<close>, \<open>to_int32\<close>). Values of type \<^verbatim>\<open>double\<close> and
  \<^verbatim>\<open>float\<close> are \<open>real\<close>: the finite numbers of the two binary formats. Infinities and NaN
  are not among them, so a division by zero and a result beyond the largest number of a
  format are outside of the model.
\<close>

definition to_size :: "int \<Rightarrow> nat" where
  "to_size x = nat (x mod 2 ^ 64)"

definition to_ssize :: "int \<Rightarrow> int" where
  "to_ssize x = (let m = x mod 2 ^ 64 in if m < 2 ^ 63 then m else m - 2 ^ 64)"

definition to_int32 :: "int \<Rightarrow> int" where
  "to_int32 x = (let m = x mod 2 ^ 32 in if m < 2 ^ 31 then m else m - 2 ^ 32)"

text \<open>
  Rounding to the nearest number of a binary format, ties to the even one: \<open>p\<close> is the
  precision in bits and \<open>emin\<close> the least exponent of a normal number. \<open>binade\<close> looks for the
  exponent \<open>e\<close> with \<open>2 ^ e \<le> x < 2 ^ (e + 1)\<close> from \<open>emin\<close> upwards, in at most \<open>fuel\<close> steps
  (below \<open>2 ^ emin\<close> the exponent is \<open>emin\<close>: the subnormal numbers). The numbers of the
  format near \<open>x\<close> are the multiples of \<open>2 ^ (e - p + 1)\<close>.
\<close>

definition roundToEven :: "real \<Rightarrow> int" where
  "roundToEven r =
     (let f = \<lfloor>r\<rfloor>
      in if r - of_int f < 1 / 2 then f
         else if r - of_int f > 1 / 2 then f + 1
         else if even f then f else f + 1)"

fun binade :: "nat \<Rightarrow> int \<Rightarrow> real \<Rightarrow> int" where
  "binade 0 e x = e"
| "binade (Suc n) e x = (if 2 powi (e + 1) \<le> x then binade n (e + 1) x else e)"

definition roundBin :: "nat \<Rightarrow> int \<Rightarrow> nat \<Rightarrow> real \<Rightarrow> real" where
  "roundBin p emin fuel x =
     (let e = binade fuel emin \<bar>x\<bar>;
          q = 2 powi (e - int p + 1)
      in of_int (roundToEven (x / q)) * q)"

text \<open>
  The result of an operation in \<^verbatim>\<open>double\<close> is \<open>dbl\<close> of the exact result, the conversion of
  a value to \<^verbatim>\<open>float\<close> is \<open>sgl\<close>. Rounding is written out in the \<open>ad\<close> scorer, in the \<open>PL\<close>
  values of the result string, and at the \<^verbatim>\<open>float\<close> variables of the aggregator and the
  normalisation by them. The sums of the other scorers and the sums into \<open>vC\<close> are written
  as sums of reals.
\<close>

definition dbl :: "real \<Rightarrow> real" where
  "dbl = roundBin 53 (- 1022) 2045"

definition sgl :: "real \<Rightarrow> real" where
  "sgl = roundBin 24 (- 126) 253"

text \<open>Conversion of a \<^verbatim>\<open>double\<close> to \<^verbatim>\<open>int\<close>: the fractional part is dropped.\<close>

definition trunc :: "real \<Rightarrow> int" where
  "trunc x = (if 0 \<le> x then \<lfloor>x\<rfloor> else \<lceil>x\<rceil>)"

definition LL_THRESHOLD :: real where
  "LL_THRESHOLD = - 255 / 10"

text \<open>The macro \<^verbatim>\<open>LG10\<close> is the literal \<^verbatim>\<open>3.322\<close>: the \<^verbatim>\<open>double\<close> nearest to it.\<close>

definition LG10 :: real where
  "LG10 = dbl (3322 / 1000)"

definition NO_ALIGNMENT :: int where
  "NO_ALIGNMENT = - 10000"

definition NO_BEST :: nat where
  "NO_BEST = 2 ^ 64 - 1"

definition MINIMUM_PREF_DIFF :: real where
  "MINIMUM_PREF_DIFF = 2"

section \<open>Options\<close>

text \<open>
  The declaration of \<^verbatim>\<open>LRCOptions\<close> and of \<^verbatim>\<open>genotyping_model\<close> is in a header the
  sources at hand use but do not contain; the record has the fields that the algorithms read.
\<close>

datatype genotyping_model = ad | va | va_old | presence | joint | multi

record LRCOptions =
  wSize :: nat
  dynamicWSize :: bool
  genotypeRightBreakpoint :: bool
  varWindow :: nat
  minDelIns :: nat
  maxSoftClipped :: nat
  maxBARcount :: nat
  minMapQ :: nat
  match :: int
  mismatch :: int
  gapOpen :: int
  gapExtend :: int
  bandedAlignmentPercent :: real
  logScaleFactor :: real
  maxAlignBits :: real
  overlapBits :: real
  altThreshFraction :: real
  altThreshFractionMax :: real
  refThreshFraction :: real
  minPresent :: nat
  cropRead :: bool
  mask :: bool
  outputRefAlt :: bool
  gtModel :: genotyping_model

section \<open>Per-read evidence: \<^verbatim>\<open>varAlignInfo\<close>\<close>

record varAlignInfo =
  qname :: string
  nD :: nat
  nI :: nat
  nAlleles :: nat
  alignS :: "real list"
  softClipped :: bool
  alignsLeft :: bool
  alignsRight :: bool

definition supports :: "varAlignInfo \<Rightarrow> real \<Rightarrow> real \<Rightarrow> LRCOptions \<Rightarrow> bool" where
  "supports vai refLen altLen opts =
     (if altLen > refLen
      then (alignsLeft vai \<and> alignsRight vai \<and> real (nI vai) > altLen * altThreshFraction opts
              \<and> real (nI vai) < altLen * altThreshFractionMax opts) \<or> softClipped vai
      else (alignsLeft vai \<and> alignsRight vai \<and> real (nD vai) > refLen * altThreshFraction opts
              \<and> real (nD vai) < refLen * altThreshFractionMax opts) \<or> softClipped vai)"

definition rejects :: "varAlignInfo \<Rightarrow> real \<Rightarrow> real \<Rightarrow> LRCOptions \<Rightarrow> bool" where
  "rejects vai refLen altLen opts =
     (if altLen > refLen
      then (alignsLeft vai \<and> alignsRight vai \<and> real (nI vai) < altLen * refThreshFraction opts)
              \<and> \<not> softClipped vai
      else (alignsLeft vai \<and> alignsRight vai \<and> real (nD vai) < refLen * refThreshFraction opts)
              \<and> \<not> softClipped vai)"

definition present :: "varAlignInfo \<Rightarrow> LRCOptions \<Rightarrow> bool" where
  "present vai opts = (nI vai \<ge> minPresent opts \<or> nD vai \<ge> minPresent opts)"

definition reset :: "varAlignInfo \<Rightarrow> varAlignInfo" where
  "reset vai = vai\<lparr>nD := 0, nI := 0,
                   alignS := map (\<lambda>_. real_of_int NO_ALIGNMENT) (alignS vai),
                   softClipped := False, alignsLeft := False, alignsRight := False\<rparr>"

text \<open>The constructor \<^verbatim>\<open>varAlignInfo(nAllelesIn)\<close>.\<close>

definition new_varAlignInfo :: "nat \<Rightarrow> varAlignInfo" where
  "new_varAlignInfo nAllelesIn =
     \<lparr>qname = [], nD = 0, nI = 0, nAlleles = nAllelesIn,
      alignS = replicate nAllelesIn (real_of_int NO_ALIGNMENT),
      softClipped = False, alignsLeft = False, alignsRight = False\<rparr>"

subsection \<open>The \<^verbatim>\<open>va\<close> scorer\<close>

text \<open>
  The search loop of \<^verbatim>\<open>vaPreference\<close>: \<open>i\<close> runs from 1 below \<open>n\<close>, the state is
  \<open>(minD, minDi)\<close>.
\<close>

definition vaStep :: "int \<Rightarrow> nat \<Rightarrow> nat list \<Rightarrow> nat \<Rightarrow> int \<times> nat \<Rightarrow> int \<times> nat" where
  "vaStep insDel refLen altLens i s =
     (let cD = to_ssize (int (altLens ! (i - 1)) - int refLen)
      in if \<bar>to_ssize (cD - insDel)\<bar> < fst s then (\<bar>to_ssize (cD - insDel)\<bar>, i) else s)"

definition vaSearch :: "int \<Rightarrow> nat \<Rightarrow> nat list \<Rightarrow> nat \<Rightarrow> int \<times> nat" where
  "vaSearch insDel refLen altLens n = fold (vaStep insDel refLen altLens) [1..<n] (\<bar>insDel\<bar>, 0)"

text \<open>The update loop: every entry but \<open>minDi\<close> gains \<open>b\<close>.\<close>

definition addExcept :: "nat \<Rightarrow> real \<Rightarrow> nat \<Rightarrow> real list \<Rightarrow> real list" where
  "addExcept minDi b n pref = fold (\<lambda>i p. if i \<noteq> minDi then p[i := p ! i + b] else p) [0..<n] pref"

text \<open>
  \<^verbatim>\<open>vaPreference\<close> returns the index of the most likely allele, or \<open>NO_BEST\<close>, and the
  updated preference vector.
\<close>

definition vaPreference ::
  "varAlignInfo \<Rightarrow> LRCOptions \<Rightarrow> nat \<Rightarrow> nat list \<Rightarrow> real list \<Rightarrow> nat \<times> real list" where
  "vaPreference vai opts refLen altLens pref =
     (if softClipped vai then (NO_BEST, pref[0 := pref ! 0 + overlapBits opts])
      else if \<not> alignsLeft vai \<or> \<not> alignsRight vai then (NO_BEST, pref)
      else
        let insDel = to_ssize (int (nI vai) - int (nD vai));
            minDi = snd (vaSearch insDel refLen altLens (nAlleles vai))
        in (minDi, addExcept minDi (overlapBits opts) (nAlleles vai) pref))"


subsection \<open>The \<^verbatim>\<open>ad\<close> scorer\<close>

text \<open>
  The first loop of \<^verbatim>\<open>alignmentPreference\<close>, state \<open>(maxScore, maxI)\<close>. \<open>maxScore\<close> is an
  \<^verbatim>\<open>int\<close>: the comparison is on \<^verbatim>\<open>double\<close>, the assignment drops the fractional part.
\<close>

definition apMaxStep :: "real list \<Rightarrow> nat \<Rightarrow> int \<times> nat \<Rightarrow> int \<times> nat" where
  "apMaxStep als i s = (if als ! i > real_of_int (fst s) then (trunc (als ! i), i) else s)"

definition apMax :: "real list \<Rightarrow> nat \<Rightarrow> int \<times> nat" where
  "apMax als n = fold (apMaxStep als) [0..<n] (trunc (als ! 0), 0)"

text \<open>
  The second loop: the penalty \<open>d\<close> of allele \<open>i\<close> and its addition to \<open>pref[i]\<close>. \<open>d\<close> is a
  \<^verbatim>\<open>float\<close>: the quotients are computed in \<^verbatim>\<open>double\<close> and then rounded to \<^verbatim>\<open>float\<close>, and so
  is \<open>maxAlignBits\<close> when it takes the place of \<open>d\<close>. The difference of the two \<^verbatim>\<open>int\<close> values
  \<open>maxScore\<close> and \<open>minAlignScore\<close> is the one of the integers (it is undefined in the source
  where it leaves the range of \<^verbatim>\<open>int\<close>). With \<open>logScaleFactor = 0\<close> the source divides by
  zero.
\<close>

definition apPenalty :: "LRCOptions \<Rightarrow> int \<Rightarrow> int \<Rightarrow> real \<Rightarrow> real" where
  "apPenalty opts maxScore minAlignScore a =
     (let d0 = sgl (dbl (dbl (real_of_int maxScore - a) / logScaleFactor opts));
          d1 = (if a = real_of_int NO_ALIGNMENT \<or> a \<le> real_of_int minAlignScore
                then sgl (dbl (real_of_int (maxScore - minAlignScore) / logScaleFactor opts))
                else d0)
      in if d1 > maxAlignBits opts then sgl (maxAlignBits opts) else d1)"

definition apUpdate :: "LRCOptions \<Rightarrow> int \<Rightarrow> int \<Rightarrow> real list \<Rightarrow> nat \<Rightarrow> real list \<Rightarrow> real list" where
  "apUpdate opts maxScore minAlignScore als n pref =
     fold (\<lambda>i p. p[i := dbl (p ! i + apPenalty opts maxScore minAlignScore (als ! i))]) [0..<n] pref"

text \<open>
  \<open>minAlignScore\<close> is the product of \<open>wSizeActual\<close>, as a \<^verbatim>\<open>double\<close>, and the \<^verbatim>\<open>double\<close> nearest
  to \<open>1.2\<close>, without its fractional part.
\<close>

definition minAlignScoreOf :: "nat \<Rightarrow> int" where
  "minAlignScoreOf wSizeActual = trunc (dbl (dbl (real wSizeActual) * dbl (12 / 10)))"

definition alignmentPreference ::
  "varAlignInfo \<Rightarrow> nat \<Rightarrow> LRCOptions \<Rightarrow> real list \<Rightarrow> nat \<times> real list" where
  "alignmentPreference vai wSizeActual opts pref =
     (let (maxScore, maxI) = apMax (alignS vai) (nAlleles vai);
          minAlignScore = minAlignScoreOf wSizeActual
      in if maxScore = NO_ALIGNMENT \<or> maxScore \<le> minAlignScore then (NO_BEST, pref)
         else (maxI, apUpdate opts maxScore minAlignScore (alignS vai) (nAlleles vai) pref))"

section \<open>Variant and read records\<close>

text \<open>
  The records of the sequence library, with the fields the algorithms read. Positions are
  zero-based; a CIGAR element is an operation character and a count.
\<close>

record VcfRecord =
  v_beginPos :: int
  v_ref :: string
  v_alt :: string
  v_info :: string
  v_format :: string
  v_genotypeInfos :: "string list"

record CigarElement =
  operation :: char
  count :: nat

record BamAlignmentRecord =
  b_qName :: string
  b_flag :: nat
  b_beginPos :: int
  b_mapQ :: nat
  b_cigar :: "CigarElement list"
  b_seq :: string

text \<open>
  \<^verbatim>\<open>strSplit\<close> of the sequence library cuts a string at every separator and keeps empty
  pieces, so the result has one piece more than there are separators.
\<close>

fun strSplit :: "char \<Rightarrow> string \<Rightarrow> string list" where
  "strSplit c [] = [[]]"
| "strSplit c (x # xs) =
     (if x = c then [] # strSplit c xs
      else (case strSplit c xs of [] \<Rightarrow> [[x]] | h # t \<Rightarrow> (x # h) # t))"

section \<open>The result string: \<^verbatim>\<open>getGtString\<close>\<close>

text \<open>Decimal output of the stream operators.\<close>

fun showNat :: "nat \<Rightarrow> string" where
  "showNat n = (if n < 10 then [''0123456789'' ! n]
                else showNat (n div 10) @ [''0123456789'' ! (n mod 10)])"

declare showNat.simps [simp del]

definition showInt :: "int \<Rightarrow> string" where
  "showInt z = (if z < 0 then CHR ''-'' # showNat (nat (- z)) else showNat (nat z))"

fun commaSep :: "string list \<Rightarrow> string" where
  "commaSep [] = []"
| "commaSep [x] = x"
| "commaSep (x # y # ys) = x @ '','' @ commaSep (y # ys)"

text \<open>
  The search loop over the negated likelihoods: the state is \<open>(maxP, a1, a2, maxA1, maxA2)\<close>,
  and \<open>(a1, a2)\<close> steps through the genotypes in the order of their flat index.
\<close>

definition gtStep ::
  "real list \<Rightarrow> nat \<Rightarrow> real \<times> nat \<times> nat \<times> nat \<times> nat \<Rightarrow> real \<times> nat \<times> nat \<times> nat \<times> nat" where
  "gtStep lls i s =
     (case s of (maxP, a1, a2, maxA1, maxA2) \<Rightarrow>
        (let (maxP', maxA1', maxA2') =
               (if lls ! i > maxP then (lls ! i, a1, a2) else (maxP, maxA1, maxA2));
             (a1', a2') = (if a2 < a1 then (a1, a2 + 1) else (a1 + 1, 0))
         in (maxP', a1', a2', maxA1', maxA2')))"

definition gtSearch :: "real list \<Rightarrow> nat \<Rightarrow> real \<times> nat \<times> nat \<times> nat \<times> nat" where
  "gtSearch lls n = fold (gtStep lls) [0..<n] (lls ! 0, 0, 0, 0, 0)"

text \<open>
  One \<open>PL\<close> value: the log-likelihood relative to the best, floored, scaled and cut. The
  difference, the quotient and the product are operations in \<^verbatim>\<open>double\<close>.
\<close>

definition gtPL :: "real \<Rightarrow> real \<Rightarrow> int" where
  "gtPL maxP x =
     (let lp = dbl (dbl (x - maxP) / LG10);
          lp' = (if lp < LL_THRESHOLD then LL_THRESHOLD else lp)
      in trunc (dbl (- 10 * lp')))"

text \<open>
  \<^verbatim>\<open>getGtString\<close> negates \<open>lls\<close> in place and writes the string; the result is the pair of
  both. The source reads \<open>lls[0]\<close>, \<open>ads[ads.size() - 1]\<close>, \<open>vas[vas.size() - 1]\<close>,
  \<open>va_reads[0]\<close> and \<open>va_reads[1]\<close> without a check: where one of them does not exist the
  result is \<open>None\<close>.
\<close>

definition getGtString ::
  "real list \<Rightarrow> nat list \<Rightarrow> nat list \<Rightarrow> string list \<Rightarrow> (real list \<times> string) option" where
  "getGtString lls ads vas va_reads =
     (if lls = [] \<or> ads = [] \<or> vas = [] \<or> length va_reads < 2 then None
      else
        let lls' = map uminus lls;
            (maxP, a1, a2, maxA1, maxA2) = gtSearch lls' (length lls')
        in Some (lls',
             showNat maxA2 @ ''/'' @ showNat maxA1 @ '':''
             @ commaSep (map showNat ads) @ '':''
             @ commaSep (map showNat vas) @ '':''
             @ commaSep (map (\<lambda>x. showInt (gtPL maxP x)) lls') @ '':''
             @ va_reads ! 0 @ '':'' @ va_reads ! 1))"

text \<open>The flat index of the genotype \<open>(a1, a2)\<close>, \<open>a2 \<le> a1\<close>.\<close>

definition gtIndex :: "nat \<Rightarrow> nat \<Rightarrow> nat" where
  "gtIndex a1 a2 = a1 * (a1 + 1) div 2 + a2"

section \<open>The genotype aggregator: \<^verbatim>\<open>multiUpdateVC\<close>\<close>

text \<open>\<^verbatim>\<open>std::numeric_limits<float>::max()\<close> and \<^verbatim>\<open>lowest()\<close>.\<close>

definition FLT_MAX :: real where
  "FLT_MAX = (2 ^ 24 - 1) * 2 ^ 104"

definition FLT_LOWEST :: real where
  "FLT_LOWEST = - FLT_MAX"

text \<open>
  The scoring part of the loop body, for one read: the preference vector of the read under
  the model \<open>gtm\<close>, and the counters \<open>rI\<close> (\<open>AD\<close>), \<open>VAs\<close> and \<open>VA_qnames\<close> updated.
\<close>

definition incr :: "nat \<Rightarrow> nat list \<Rightarrow> nat list" where
  "incr i xs = xs[i := xs ! i + 1]"

definition adPart ::
  "genotyping_model \<Rightarrow> varAlignInfo \<Rightarrow> nat \<Rightarrow> LRCOptions \<Rightarrow> real list \<times> nat list
     \<Rightarrow> real list \<times> nat list" where
  "adPart gtm vai wSizeActual opts s =
     (case s of (prefs, rI) \<Rightarrow>
        if gtm = ad \<or> gtm = joint then
          (let (bestI, prefs') = alignmentPreference vai wSizeActual opts prefs;
               rI' = (if bestI \<noteq> NO_BEST then incr bestI rI else rI)
           in (prefs', incr (length rI' - 1) rI'))
        else s)"

definition vaPart ::
  "genotyping_model \<Rightarrow> varAlignInfo \<Rightarrow> LRCOptions \<Rightarrow> nat \<Rightarrow> nat list
     \<Rightarrow> real list \<times> nat list \<times> string list \<Rightarrow> real list \<times> nat list \<times> string list" where
  "vaPart gtm vai opts refLen altLens s =
     (case s of (prefs, VAs, VA_qnames) \<Rightarrow>
        if gtm = va \<or> gtm = joint then
          (let (bestI, prefs') = vaPreference vai opts refLen altLens prefs;
               (VAs', VA_qnames') =
                 (if bestI \<noteq> NO_BEST
                  then (incr bestI VAs,
                        VA_qnames[bestI := VA_qnames ! bestI @ '','' @ qname vai])
                  else (VAs, VA_qnames))
           in (prefs', incr (length VAs' - 1) VAs', VA_qnames'))
        else s)"

definition vaOldStep ::
  "varAlignInfo \<Rightarrow> LRCOptions \<Rightarrow> nat \<Rightarrow> nat list \<Rightarrow> nat \<Rightarrow> real list \<times> nat \<times> real
     \<Rightarrow> real list \<times> nat \<times> real" where
  "vaOldStep vai opts refLen altLens iP s =
     (case s of (prefs, bestI, bestScore) \<Rightarrow>
        (let cScore = overlapBits opts *
                 (- (if supports vai (real refLen) (real (altLens ! iP)) opts then 1 else 0)
                  + (if rejects vai (real refLen) (real (altLens ! iP)) opts then 1 else 0));
             prefs' = prefs[iP + 1 := prefs ! (iP + 1) + cScore]
         in if cScore < bestScore then (prefs', iP + 1, cScore) else (prefs', bestI, bestScore)))"

definition vaOldPart ::
  "genotyping_model \<Rightarrow> varAlignInfo \<Rightarrow> LRCOptions \<Rightarrow> nat \<Rightarrow> nat list
     \<Rightarrow> real list \<times> nat list \<Rightarrow> real list \<times> nat list" where
  "vaOldPart gtm vai opts refLen altLens s =
     (case s of (prefs, VAs) \<Rightarrow>
        if gtm = va_old then
          (let (prefs', bestI, bestScore) =
                 fold (vaOldStep vai opts refLen altLens) [0..<length altLens] (prefs, 0, 0);
               VAs' = incr bestI VAs
           in (prefs', incr (length VAs' - 1) VAs'))
        else s)"

definition presencePart ::
  "genotyping_model \<Rightarrow> varAlignInfo \<Rightarrow> LRCOptions \<Rightarrow> nat \<Rightarrow> real list \<Rightarrow> real list" where
  "presencePart gtm vai opts nAlts prefs =
     (if gtm = presence then
        (let prefs' = (if present vai opts then prefs[0 := prefs ! 0 + overlapBits opts]
                       else prefs[1 := prefs ! 1 + overlapBits opts])
         in fold (\<lambda>iP p. p[iP := p ! iP + overlapBits opts]) [2..<nAlts + 1] prefs')
      else prefs)"

definition scoreRead ::
  "genotyping_model \<Rightarrow> varAlignInfo \<Rightarrow> nat \<Rightarrow> LRCOptions \<Rightarrow> nat \<Rightarrow> nat list
     \<Rightarrow> nat list \<times> nat list \<times> string list \<Rightarrow> real list \<times> nat list \<times> nat list \<times> string list" where
  "scoreRead gtm vai wSizeActual opts refLen altLens s =
     (case s of (rI, VAs, VA_qnames) \<Rightarrow>
        (let prefs0 = replicate (length altLens + 1) 0;
             (prefs1, rI') = adPart gtm vai wSizeActual opts (prefs0, rI);
             (prefs2, VAs', VA_qnames') = vaPart gtm vai opts refLen altLens (prefs1, VAs, VA_qnames);
             (prefs3, VAs'') = vaOldPart gtm vai opts refLen altLens (prefs2, VAs');
             prefs4 = presencePart gtm vai opts (length altLens) prefs3
         in (prefs4, rI', VAs'', VA_qnames')))"

text \<open>
  The aggregation part of the loop body: \<open>minPref\<close>, \<open>maxPref\<close>, normalisation, \<open>vC\<close>.
  \<open>minPref\<close> and \<open>maxPref\<close> are \<^verbatim>\<open>float\<close> variables: the comparison with \<open>prefs[iP]\<close> is one of
  \<^verbatim>\<open>double\<close>, the assignment rounds to \<^verbatim>\<open>float\<close>. The normalisation subtracts the \<^verbatim>\<open>float\<close>
  from the \<^verbatim>\<open>double\<close>, in \<^verbatim>\<open>double\<close>.
\<close>

definition minPref :: "real list \<Rightarrow> nat \<Rightarrow> real" where
  "minPref prefs n = fold (\<lambda>iP m. if prefs ! iP < m then sgl (prefs ! iP) else m) [0..<n] FLT_MAX"

definition maxPref :: "real list \<Rightarrow> nat \<Rightarrow> real" where
  "maxPref prefs n = fold (\<lambda>iP m. if prefs ! iP > m then sgl (prefs ! iP) else m) [0..<n] FLT_LOWEST"

definition normalise :: "real list \<Rightarrow> nat \<Rightarrow> real \<Rightarrow> real list" where
  "normalise prefs n m = fold (\<lambda>iP p. p[iP := dbl (p ! iP - m)]) [0..<n] prefs"

text \<open>The body of the inner loop: what the genotype \<open>(a1, a2)\<close> adds to \<open>vC[vCI]\<close>.\<close>

definition pairUpdate :: "real list \<Rightarrow> nat \<Rightarrow> nat \<Rightarrow> real list \<times> nat \<Rightarrow> real list \<times> nat" where
  "pairUpdate prefs a1 a2 s =
     (case s of (vC, vCI) \<Rightarrow>
        ((if a1 \<noteq> a2 then
            (if prefs ! a1 = prefs ! a2 then vC[vCI := vC ! vCI + prefs ! a1]
             else if prefs ! a1 > prefs ! a2 + 2 then vC[vCI := vC ! vCI + (prefs ! a2 + 1)]
             else if prefs ! a2 > prefs ! a1 + 2 then vC[vCI := vC ! vCI + (prefs ! a1 + 1)]
             else if prefs ! a1 > prefs ! a2
               then vC[vCI := vC ! vCI + (prefs ! a1 + prefs ! a2) / 2]
             else vC)
          else vC[vCI := vC ! vCI + prefs ! a1]),
         vCI + 1))"

definition pairLoops :: "real list \<Rightarrow> nat \<Rightarrow> real list \<times> nat \<Rightarrow> real list \<times> nat" where
  "pairLoops prefs n s = fold (\<lambda>a1. fold (pairUpdate prefs a1) [0..<a1 + 1]) [0..<n] s"

text \<open>The test of the spread is on the difference of the two \<^verbatim>\<open>float\<close> variables, a \<^verbatim>\<open>float\<close>.\<close>

definition aggregateRead :: "nat \<Rightarrow> real list \<Rightarrow> real list \<Rightarrow> real list" where
  "aggregateRead nAlts prefs vC =
     (let mn = minPref prefs (nAlts + 1);
          mx = maxPref prefs (nAlts + 1);
          prefs' = normalise prefs (nAlts + 1) mn
      in if sgl (mx - mn) > MINIMUM_PREF_DIFF then fst (pairLoops prefs' (nAlts + 1) (vC, 0))
         else vC)"

definition readStep ::
  "genotyping_model \<Rightarrow> nat \<Rightarrow> LRCOptions \<Rightarrow> nat \<Rightarrow> nat list \<Rightarrow> varAlignInfo
     \<Rightarrow> real list \<times> nat list \<times> nat list \<times> string list
     \<Rightarrow> real list \<times> nat list \<times> nat list \<times> string list" where
  "readStep gtm wSizeActual opts refLen altLens vai s =
     (case s of (vC, rI, VAs, VA_qnames) \<Rightarrow>
        (let (prefs, rI', VAs', VA_qnames') =
               scoreRead gtm vai wSizeActual opts refLen altLens (rI, VAs, VA_qnames)
         in (aggregateRead (length altLens) prefs vC, rI', VAs', VA_qnames')))"

definition multiUpdateVC ::
  "VcfRecord \<Rightarrow> varAlignInfo list \<Rightarrow> real list \<Rightarrow> nat list \<Rightarrow> nat list \<Rightarrow> string list
     \<Rightarrow> nat \<Rightarrow> LRCOptions \<Rightarrow> genotyping_model
     \<Rightarrow> real list \<times> nat list \<times> nat list \<times> string list" where
  "multiUpdateVC var vais vC rI VAs VA_qnames wSizeActual opts gtm =
     (let altSet = strSplit CHR '','' (v_alt var);
          altLens = map length altSet
      in fold (readStep gtm wSizeActual opts (length (v_ref var)) altLens) vais
           (vC, rI, VAs, VA_qnames))"

text \<open>The number of reads for which the \<open>ad\<close> scorer reports no best allele.\<close>

definition noBestCount :: "nat \<Rightarrow> LRCOptions \<Rightarrow> nat \<Rightarrow> varAlignInfo list \<Rightarrow> nat" where
  "noBestCount w opts n vais =
     length (filter (\<lambda>vai. fst (alignmentPreference vai w opts (replicate n 0)) = NO_BEST) vais)"

text \<open>
  What the body of the inner loop adds to \<open>vC[vCI]\<close> for the genotype \<open>(a1, a2)\<close>; nothing
  where no branch applies.
\<close>

definition contribution :: "real list \<Rightarrow> nat \<Rightarrow> nat \<Rightarrow> real" where
  "contribution prefs a1 a2 =
     (if a1 \<noteq> a2 then
        (if prefs ! a1 = prefs ! a2 then prefs ! a1
         else if prefs ! a1 > prefs ! a2 + 2 then prefs ! a2 + 1
         else if prefs ! a2 > prefs ! a1 + 2 then prefs ! a1 + 1
         else if prefs ! a1 > prefs ! a2 then (prefs ! a1 + prefs ! a2) / 2
         else 0)
      else prefs ! a1)"

text \<open>
  The preference vector of a read under a model. It does not depend on the counters, which
  are therefore empty here.
\<close>

definition readPrefs ::
  "genotyping_model \<Rightarrow> varAlignInfo \<Rightarrow> nat \<Rightarrow> LRCOptions \<Rightarrow> nat \<Rightarrow> nat list \<Rightarrow> real list" where
  "readPrefs gtm vai wSizeActual opts refLen altLens =
     fst (scoreRead gtm vai wSizeActual opts refLen altLens ([], [], []))"

section \<open>The allele window builder: \<^verbatim>\<open>getLocRefAlt\<close>\<close>

datatype Dna5 = DnaA | DnaC | DnaG | DnaT | DnaN

type_synonym TSequence = "Dna5 list"

text \<open>Assignment of a character string to a \<^verbatim>\<open>TSequence\<close>: letters other than A, C, G, T become N.\<close>

definition toDna5 :: "char \<Rightarrow> Dna5" where
  "toDna5 c =
     (if c = CHR ''A'' \<or> c = CHR ''a'' then DnaA
      else if c = CHR ''C'' \<or> c = CHR ''c'' then DnaC
      else if c = CHR ''G'' \<or> c = CHR ''g'' then DnaG
      else if c = CHR ''T'' \<or> c = CHR ''t'' then DnaT
      else DnaN)"

text \<open>
  Modelled from the spec: the reference index gives random access to the bases of a contig
  by contig and interval, and contigs are looked up by name. The index is the list of the
  contigs with their names, in the order of their ids. \<^verbatim>\<open>getIdByName\<close> finds the id of a
  name; \<^verbatim>\<open>readRegion\<close> cuts the interval to the contig and returns its bases. (Both are
  functions of the sequence library, outside the sources at hand.)
\<close>

type_synonym FaiIndex = "(string \<times> string) list"

fun nameIndex :: "string list \<Rightarrow> string \<Rightarrow> nat option" where
  "nameIndex [] n = None"
| "nameIndex (x # xs) n = (if x = n then Some 0 else map_option Suc (nameIndex xs n))"

definition getIdByName :: "FaiIndex \<Rightarrow> string \<Rightarrow> nat option" where
  "getIdByName faiI chrom = nameIndex (map fst faiI) chrom"

definition readRegion :: "FaiIndex \<Rightarrow> nat \<Rightarrow> nat \<Rightarrow> nat \<Rightarrow> TSequence" where
  "readRegion faiI idx beginPos endPos =
     (if idx < length faiI then
        (let s = snd (faiI ! idx);
             seqLen = length s;
             b = min beginPos seqLen;
             e = min (max b endPos) seqLen
         in map toDna5 (take (e - b) (drop b s)))
      else [])"

definition infixWithLength :: "'a list \<Rightarrow> nat \<Rightarrow> nat \<Rightarrow> 'a list" where
  "infixWithLength s pos len = take len (drop pos s)"

text \<open>
  The body of the loop over the alternate alleles. The interval bounds are computed in
  \<^verbatim>\<open>size_t\<close>, from the \<^verbatim>\<open>int32_t\<close> position of the variant.
\<close>

definition altWindow :: "VcfRecord \<Rightarrow> FaiIndex \<Rightarrow> nat \<Rightarrow> nat \<Rightarrow> LRCOptions \<Rightarrow> string \<Rightarrow> TSequence" where
  "altWindow variant faiI idx wSizeActual opts altStr =
     (let beginPos = v_beginPos variant;
          refLen = int (length (v_ref variant));
          w = int wSizeActual;
          altLen = length altStr
      in if \<not> genotypeRightBreakpoint opts then
           (let pre = readRegion faiI idx (to_size (beginPos - w)) (to_size beginPos);
                post = (if altLen < wSizeActual
                        then map toDna5 altStr
                             @ readRegion faiI idx (to_size (beginPos + refLen))
                                 (to_size (beginPos + refLen + w - int altLen))
                        else map toDna5 (infixWithLength altStr 0 wSizeActual))
            in pre @ post)
         else
           (let pre = (if altLen < wSizeActual
                       then readRegion faiI idx (to_size (beginPos - w + int altLen))
                              (to_size beginPos)
                            @ map toDna5 altStr
                       else map toDna5
                              (infixWithLength altStr (altLen - wSizeActual) wSizeActual));
                post = readRegion faiI idx (to_size (beginPos + refLen))
                         (to_size (beginPos + refLen + w))
            in pre @ post))"

text \<open>
  \<^verbatim>\<open>getLocRefAlt\<close> returns \<open>refSeq\<close> and \<open>altSeqs\<close>. When the name of the chromosome is not
  in the index, the source writes a warning (in verbose mode) and goes on with \<open>idx = 0\<close>.
\<close>

definition getLocRefAlt ::
  "VcfRecord \<Rightarrow> FaiIndex \<Rightarrow> string \<Rightarrow> nat \<Rightarrow> LRCOptions \<Rightarrow> TSequence \<times> TSequence list" where
  "getLocRefAlt variant faiI chrom wSizeActual opts =
     (let altSet = strSplit CHR '','' (v_alt variant);
          beginPos = v_beginPos variant;
          idx = (case getIdByName faiI chrom of None \<Rightarrow> 0 | Some i \<Rightarrow> i);
          refLen = int (length (v_ref variant));
          w = int wSizeActual;
          refSeq = (if genotypeRightBreakpoint opts
                    then readRegion faiI idx (to_size (beginPos - w + refLen))
                           (to_size (beginPos + refLen + w))
                    else readRegion faiI idx (to_size (beginPos - w)) (to_size (beginPos + w)))
      in (refSeq, map (altWindow variant faiI idx wSizeActual opts) altSet))"

section \<open>The read window cropper: \<^verbatim>\<open>cropSeq\<close>\<close>

text \<open>
  The CIGAR walk: the loop runs while \<open>alignPos < searchPos\<close> and operations are left; the
  state is \<open>(alignPos, readPos, lReadPos, cigarOperation)\<close>.
\<close>

fun cropWalk :: "int \<Rightarrow> CigarElement list \<Rightarrow> int \<times> int \<times> int \<times> char \<Rightarrow> int \<times> int \<times> int \<times> char" where
  "cropWalk searchPos [] s = s"
| "cropWalk searchPos (c # cs) (alignPos, readPos, lReadPos, cigarOperation) =
     (if alignPos < searchPos then
        (let op = operation c;
             alignPos' = (if op = CHR ''D'' \<or> op = CHR ''='' \<or> op = CHR ''X'' \<or> op = CHR ''M''
                          then alignPos + int (count c) else alignPos);
             readPos' = (if op = CHR ''='' \<or> op = CHR ''X'' \<or> op = CHR ''M''
                            \<or> op = CHR ''S'' \<or> op = CHR ''I''
                         then readPos + int (count c) else readPos)
         in cropWalk searchPos cs (alignPos', readPos', readPos, op))
      else (alignPos, readPos, lReadPos, cigarOperation))"

text \<open>The crop bounds before the clamps, from the end of the walk.\<close>

definition cropBounds :: "bool \<Rightarrow> int \<Rightarrow> int \<Rightarrow> int \<Rightarrow> int \<Rightarrow> int \<times> int" where
  "cropBounds rightBreakpoint wSizeActual searchPos alignPos readPos =
     (if rightBreakpoint then
        (if alignPos \<ge> searchPos - 2 * wSizeActual then
           (let rShift = searchPos - alignPos
            in (readPos - 2 * wSizeActual + rShift, readPos + rShift))
         else (readPos, readPos + wSizeActual))
      else
        (let rShift = alignPos - searchPos
         in (readPos - rShift, readPos + 2 * wSizeActual - rShift)))"

text \<open>The clamps, and the decrement of \<open>rBeg\<close> when both bounds are equal.\<close>

definition cropClamp :: "int \<Rightarrow> int \<Rightarrow> int \<times> int \<Rightarrow> int \<times> int" where
  "cropClamp wSizeActual seqLen s =
     (case s of (rBeg, rEnd) \<Rightarrow>
        (let rBeg1 = (if rBeg < 0 then 0 else rBeg);
             rEnd1 = (if rEnd < 2 * wSizeActual then 2 * wSizeActual else rEnd);
             rEnd2 = (if rEnd1 > seqLen then seqLen else rEnd1);
             rBeg2 = (if rEnd2 = rBeg1 then rBeg1 - 1 else rBeg1)
         in (rBeg2, rEnd2)))"

text \<open>
  \<^verbatim>\<open>cropSeq\<close> returns the final bounds \<open>rBeg\<close>, \<open>rEnd\<close> and the cropped sequence. The source
  reads \<open>cigarString[0]\<close> before the loop: without a CIGAR operation the result is \<open>None\<close>.
  \<^verbatim>\<open>infixWithLength\<close> is given \<open>rBeg\<close> and \<open>rEnd - rBeg\<close> unchecked: where they do not
  describe a part of the sequence there is no cropped sequence (\<open>None\<close> in the third
  component).
\<close>

definition cropSeq ::
  "BamAlignmentRecord \<Rightarrow> VcfRecord \<Rightarrow> int \<Rightarrow> LRCOptions \<Rightarrow> (int \<times> int \<times> TSequence option) option" where
  "cropSeq bar var wSizeActual opts =
     (case b_cigar bar of
        [] \<Rightarrow> None
      | c0 # _ \<Rightarrow>
         (let searchPos0 = (if genotypeRightBreakpoint opts
                            then v_beginPos var + int (length (v_ref var)) + wSizeActual
                            else v_beginPos var - wSizeActual);
              searchPos = max searchPos0 0;
              (alignPos, readPos0, lReadPos, cigarOperation) =
                 cropWalk searchPos (b_cigar bar) (b_beginPos bar, 0, 0, operation c0);
              readPos = (if cigarOperation = CHR ''S'' \<or> cigarOperation = CHR ''H''
                         then lReadPos else readPos0);
              (rBeg, rEnd) =
                 cropClamp wSizeActual (int (length (b_seq bar)))
                   (cropBounds (genotypeRightBreakpoint opts) wSizeActual searchPos alignPos readPos)
          in Some (rBeg, rEnd,
                   if 0 \<le> rBeg \<and> rBeg \<le> rEnd \<and> rEnd \<le> int (length (b_seq bar))
                   then Some (map toDna5
                                (infixWithLength (b_seq bar) (nat rBeg) (nat (rEnd - rBeg))))
                   else None)))"

text \<open>
  The number of read bases and of reference bases that the operations of a CIGAR cover, as
  the walk counts them.
\<close>

definition readSpan :: "CigarElement list \<Rightarrow> int" where
  "readSpan cs = (\<Sum>c\<leftarrow>cs. if operation c \<in> set ''=XMSI'' then int (count c) else 0)"

definition refSpan :: "CigarElement list \<Rightarrow> int" where
  "refSpan cs = (\<Sum>c\<leftarrow>cs. if operation c \<in> set ''D=XM'' then int (count c) else 0)"

section \<open>The CIGAR examiner: \<^verbatim>\<open>examineBamAlignment\<close>\<close>

text \<open>
  \<^verbatim>\<open>std::atoi\<close>: white space, an optional sign, then decimal digits as far as they go. The
  result is an \<^verbatim>\<open>int\<close>. For a number outside of the range of \<^verbatim>\<open>int\<close> the language leaves the
  value open; it is the one of the C library here, which converts with \<^verbatim>\<open>strtol\<close> (the number
  cut to the range of 64 bits) and keeps the low 32 bits.
\<close>

definition isDigit :: "char \<Rightarrow> bool" where
  "isDigit c = (48 \<le> (of_char c :: nat) \<and> (of_char c :: nat) \<le> 57)"

fun digitsValue :: "string \<Rightarrow> int \<Rightarrow> int" where
  "digitsValue [] acc = acc"
| "digitsValue (c # cs) acc =
     (if isDigit c then digitsValue cs (10 * acc + (of_char c - 48)) else acc)"

definition strtol :: "string \<Rightarrow> int" where
  "strtol s =
     (let v = (case dropWhile (\<lambda>c. c \<in> set [CHR '' '', CHR 0x09, CHR 0x0A, CHR 0x0B, CHR 0x0C,
                                             CHR 0x0D]) s of
                 [] \<Rightarrow> 0
               | c # cs \<Rightarrow> if c = CHR ''-'' then - digitsValue cs 0
                           else if c = CHR ''+'' then digitsValue cs 0
                           else digitsValue (c # cs) 0)
      in if v < - (2 ^ 63) then - (2 ^ 63) else if v > 2 ^ 63 - 1 then 2 ^ 63 - 1 else v)"

definition atoi :: "string \<Rightarrow> int" where
  "atoi s = to_int32 (strtol s)"

text \<open>
  One entry of the \<open>info\<close> column widens the region when it carries one of the four hints.
  The source reads the value \<open>info2[1]\<close> of a hint without a check; an entry with such a key
  and no \<open>=\<close> is left aside here. The bound computed from a hint is stored in an \<^verbatim>\<open>int32_t\<close>.
\<close>

definition infoStep :: "LRCOptions \<Rightarrow> string \<Rightarrow> int \<times> int \<Rightarrow> int \<times> int" where
  "infoStep opts item s =
     (case s of (regionBeg, regionEnd) \<Rightarrow>
        (let info2 = strSplit CHR ''='' item;
             key = info2 ! 0;
             val = (if 2 \<le> length info2 then info2 ! 1 else ''.'');
             given = (val \<noteq> ''.'');
             lo = to_int32 (atoi val - int (varWindow opts));
             hi = to_int32 (atoi val + int (varWindow opts));
             regionBeg1 = (if key = ''TRRBEGIN'' \<and> given \<and> lo < regionBeg then lo else regionBeg);
             regionEnd1 = (if key = ''TRREND'' \<and> given \<and> hi > regionEnd then hi else regionEnd);
             regionBeg2 = (if key = ''REGBEGIN'' \<and> given \<and> lo < regionBeg1 then lo else regionBeg1);
             regionEnd2 = (if key = ''REGEND'' \<and> given \<and> hi > regionEnd1 then hi else regionEnd1)
         in (regionBeg2, regionEnd2)))"

text \<open>The first loop: up to the first position in the region. State \<open>(alignPos, cigarI, cigarOperation)\<close>.\<close>

fun examSkip :: "int \<Rightarrow> CigarElement list \<Rightarrow> int \<times> nat \<times> char \<Rightarrow> int \<times> nat \<times> char" where
  "examSkip regionBeg [] s = s"
| "examSkip regionBeg (c # cs) (alignPos, cigarI, cigarOperation) =
     (if alignPos < regionBeg then
        examSkip regionBeg cs
          (if operation c = CHR ''M'' \<or> operation c = CHR ''='' \<or> operation c = CHR ''D''
              \<or> operation c = CHR ''X''
           then alignPos + int (count c) else alignPos,
           cigarI + 1, operation c)
      else (alignPos, cigarI, cigarOperation))"

text \<open>
  The second loop, over the operations inside the region. State
  \<open>(alignPos, cigarI, nD, nI, softClipped)\<close>; \<open>n\<close> is the length of the CIGAR.
\<close>

fun examCount ::
  "LRCOptions \<Rightarrow> int \<Rightarrow> nat \<Rightarrow> CigarElement list \<Rightarrow> int \<times> nat \<times> nat \<times> nat \<times> bool
     \<Rightarrow> int \<times> nat \<times> nat \<times> nat \<times> bool" where
  "examCount opts regionEnd n [] s = s"
| "examCount opts regionEnd n (c # cs) (alignPos, cigarI, d, i, sc) =
     (if alignPos < regionEnd then
        examCount opts regionEnd n cs
          (if operation c = CHR ''D'' then
             (alignPos + int (count c), cigarI + 1,
              if count c \<ge> minDelIns opts then d + count c else d, i, sc)
           else if operation c = CHR ''='' \<or> operation c = CHR ''X'' \<or> operation c = CHR ''M'' then
             (alignPos + int (count c), cigarI + 1, d, i, sc)
           else if operation c = CHR ''I'' then
             (alignPos, cigarI + 1, d, if count c \<ge> minDelIns opts then i + count c else i, sc)
           else if operation c = CHR ''S'' then
             (alignPos, cigarI + 1, d, i,
              if count c > maxSoftClipped opts
                 \<and> (if \<not> genotypeRightBreakpoint opts then cigarI = n - 1 else cigarI = 0)
              then True else sc)
           else (alignPos, cigarI + 1, d, i, sc))
      else (alignPos, cigarI, d, i, sc))"

text \<open>
  \<^verbatim>\<open>examineBamAlignment\<close> returns the evidence record. It reads \<open>cigarString[0]\<close> first: the
  result is \<open>None\<close> for a read without CIGAR operations.
\<close>

definition examineBamAlignment ::
  "BamAlignmentRecord \<Rightarrow> VcfRecord \<Rightarrow> varAlignInfo \<Rightarrow> LRCOptions \<Rightarrow> varAlignInfo option" where
  "examineBamAlignment bar var vai0 opts =
     (case b_cigar bar of
        [] \<Rightarrow> None
      | c0 # _ \<Rightarrow>
         (let vai = (reset vai0)\<lparr>qname := b_qName bar\<rparr>;
              regionBeg0 = v_beginPos var - int (varWindow opts);
              regionEnd0 = v_beginPos var + int (length (v_ref var)) + int (varWindow opts);
              (regionBeg, regionEnd) =
                 fold (infoStep opts) (strSplit CHR '';'' (v_info var)) (regionBeg0, regionEnd0);
              left = (b_beginPos bar < regionBeg);
              (alignPos1, cigarI1, cigarOperation) =
                 examSkip regionBeg (b_cigar bar) (b_beginPos bar, 0, operation c0);
              d0 = (if alignPos1 > regionBeg \<and> cigarOperation = CHR ''D''
                       \<and> alignPos1 - regionBeg \<ge> int (minDelIns opts)
                    then nat (alignPos1 - regionBeg) else 0);
              (alignPos2, cigarI2, d, i, sc) =
                 examCount opts regionEnd (length (b_cigar bar)) (drop cigarI1 (b_cigar bar))
                   (alignPos1, cigarI1, d0, 0, False)
          in Some (vai\<lparr>nD := d, nI := i, softClipped := sc, alignsLeft := left,
                       alignsRight := (alignPos2 > regionEnd)\<rparr>)))"

section \<open>The read selector: \<^verbatim>\<open>parseReads\<close>\<close>

text \<open>
  Modelled from the spec: the end of a read in reference coordinates is its begin plus the
  counts of the operations that advance on the reference (\<^verbatim>\<open>getAlignmentLengthInRef\<close> of the
  sequence library); duplicate and QC-failed reads are flagged in the record
  (\<^verbatim>\<open>hasFlagDuplicate\<close>, \<^verbatim>\<open>hasFlagQCNoPass\<close>: bits \<open>0x400\<close> and \<open>0x200\<close> of the flag).
\<close>

definition getAlignmentLengthInRef :: "BamAlignmentRecord \<Rightarrow> nat" where
  "getAlignmentLengthInRef r =
     (\<Sum>c\<leftarrow>b_cigar r. if operation c \<in> set ''MDN=X'' then count c else 0)"

definition hasFlagDuplicate :: "BamAlignmentRecord \<Rightarrow> bool" where
  "hasFlagDuplicate r = odd (b_flag r div 1024)"

definition hasFlagQCNoPass :: "BamAlignmentRecord \<Rightarrow> bool" where
  "hasFlagQCNoPass r = odd (b_flag r div 512)"

text \<open>
  The state of the loop over the reads: the candidates, their evidence records, the evidence
  record that is reused from read to read, and the cache from names to candidate slots.
\<close>

record parseState =
  overlappingBars :: "BamAlignmentRecord list"
  align_infos :: "varAlignInfo list"
  cur_vai :: varAlignInfo
  nameCache :: "string \<rightharpoonup> nat"

text \<open>The \<^verbatim>\<open>continue\<close> test: the read does not reach the window, or maps too poorly.\<close>

definition skipRead :: "int \<Rightarrow> LRCOptions \<Rightarrow> BamAlignmentRecord \<Rightarrow> bool" where
  "skipRead beg opts r =
     (b_beginPos r + int (length (b_seq r)) < beg
      \<or> b_beginPos r + int (getAlignmentLengthInRef r) < beg
      \<or> b_mapQ r < minMapQ opts)"

text \<open>The tests at the end of the loop body: soft clip at the relevant end, flags, hard clip.\<close>

definition softClipRemove :: "LRCOptions \<Rightarrow> BamAlignmentRecord \<Rightarrow> bool" where
  "softClipRemove opts r =
     (if \<not> genotypeRightBreakpoint opts
      then operation (b_cigar r ! 0) = CHR ''S'' \<and> count (b_cigar r ! 0) > maxSoftClipped opts
      else operation (b_cigar r ! (length (b_cigar r) - 1)) = CHR ''S''
           \<and> count (b_cigar r ! (length (b_cigar r) - 1)) > maxSoftClipped opts)"

definition hardClipped :: "BamAlignmentRecord \<Rightarrow> bool" where
  "hardClipped r =
     (operation (b_cigar r ! 0) = CHR ''H''
      \<or> operation (b_cigar r ! (length (b_cigar r) - 1)) = CHR ''H'')"

definition keepRead :: "LRCOptions \<Rightarrow> BamAlignmentRecord \<Rightarrow> bool" where
  "keepRead opts r =
     (\<not> softClipRemove opts r \<and> \<not> hasFlagDuplicate r \<and> \<not> hasFlagQCNoPass r \<and> \<not> hardClipped r)"

text \<open>Entering a read: a known name replaces its slot, a new name appends.\<close>

definition addCandidate :: "BamAlignmentRecord \<Rightarrow> varAlignInfo \<Rightarrow> parseState \<Rightarrow> parseState" where
  "addCandidate r vai st =
     (case nameCache st (b_qName r) of
        Some index \<Rightarrow>
          st\<lparr>overlappingBars := (overlappingBars st)[index := r],
             align_infos := (align_infos st)[index := vai]\<rparr>
      | None \<Rightarrow>
          st\<lparr>overlappingBars := overlappingBars st @ [r],
             align_infos := align_infos st @ [vai],
             nameCache := (nameCache st)(b_qName r \<mapsto> length (overlappingBars st))\<rparr>)"

text \<open>
  The loop. A read without CIGAR operations cannot be examined (the source reads its first
  operation): the result is \<open>None\<close>.
\<close>

fun parseLoop ::
  "VcfRecord \<Rightarrow> LRCOptions \<Rightarrow> int \<Rightarrow> int \<Rightarrow> int \<Rightarrow> BamAlignmentRecord list \<Rightarrow> parseState
     \<Rightarrow> parseState option" where
  "parseLoop var opts beg end' stopReading [] st = Some st"
| "parseLoop var opts beg end' stopReading (r # rs) st =
     (if length (overlappingBars st) \<ge> maxBARcount opts \<or> b_beginPos r > stopReading then Some st
      else if skipRead beg opts r then parseLoop var opts beg end' stopReading rs st
      else
        (case examineBamAlignment r var (cur_vai st) opts of
           None \<Rightarrow> None
         | Some vai \<Rightarrow>
            if b_beginPos r \<ge> end' then Some (st\<lparr>cur_vai := vai\<rparr>)
            else if keepRead opts r
              then parseLoop var opts beg end' stopReading rs (addCandidate r vai (st\<lparr>cur_vai := vai\<rparr>))
            else parseLoop var opts beg end' stopReading rs (st\<lparr>cur_vai := vai\<rparr>)))"

text \<open>The window of the read selector and the position after which it stops reading.\<close>

definition windowBeg :: "VcfRecord \<Rightarrow> nat \<Rightarrow> LRCOptions \<Rightarrow> int" where
  "windowBeg var wSizeActual opts =
     (if genotypeRightBreakpoint opts
      then v_beginPos var - int wSizeActual + int (length (v_ref var))
      else v_beginPos var - int wSizeActual)"

definition windowEnd :: "VcfRecord \<Rightarrow> nat \<Rightarrow> LRCOptions \<Rightarrow> int" where
  "windowEnd var wSizeActual opts =
     (if genotypeRightBreakpoint opts
      then v_beginPos var + int wSizeActual + int (length (v_ref var))
      else v_beginPos var + int wSizeActual)"

definition stopReading :: "VcfRecord \<Rightarrow> nat \<Rightarrow> LRCOptions \<Rightarrow> int" where
  "stopReading var wSizeActual opts =
     (if genotypeRightBreakpoint opts then windowEnd var wSizeActual opts
      else windowBeg var wSizeActual opts)"

text \<open>
  \<^verbatim>\<open>parseReads\<close> appends to \<open>overlappingBars\<close> and \<open>align_infos\<close>, which its caller passes
  empty, and returns both.
\<close>

definition parseReads ::
  "BamAlignmentRecord list \<Rightarrow> VcfRecord \<Rightarrow> nat \<Rightarrow> LRCOptions
     \<Rightarrow> (BamAlignmentRecord list \<times> varAlignInfo list) option" where
  "parseReads bars var wSizeActual opts =
     (let nAlts = length (strSplit CHR '','' (v_alt var));
          st0 = \<lparr>overlappingBars = [], align_infos = [],
                 cur_vai = new_varAlignInfo (nAlts + 1), nameCache = Map.empty\<rparr>
      in map_option (\<lambda>st. (overlappingBars st, align_infos st))
           (parseLoop var opts (windowBeg var wSizeActual opts) (windowEnd var wSizeActual opts)
              (stopReading var wSizeActual opts) bars st0))"

text \<open>A read passes the filters of the selector when it is not skipped and is kept.\<close>

definition passesFilters :: "int \<Rightarrow> LRCOptions \<Rightarrow> BamAlignmentRecord \<Rightarrow> bool" where
  "passesFilters beg opts r = (\<not> skipRead beg opts r \<and> keepRead opts r)"

text \<open>
  What holds of the state of the loop between two reads: both lists have the same length,
  the cache maps exactly the names of the candidates to their slots, every evidence record
  is the one of its candidate, and the reused evidence record keeps its size.
\<close>

definition parseInv :: "VcfRecord \<Rightarrow> LRCOptions \<Rightarrow> nat \<Rightarrow> parseState \<Rightarrow> bool" where
  "parseInv var opts n st =
     (length (align_infos st) = length (overlappingBars st)
      \<and> (\<forall>name i. nameCache st name = Some i \<longrightarrow>
             i < length (overlappingBars st) \<and> b_qName (overlappingBars st ! i) = name)
      \<and> (\<forall>i<length (overlappingBars st).
             nameCache st (b_qName (overlappingBars st ! i)) = Some i)
      \<and> (\<forall>i<length (overlappingBars st).
             examineBamAlignment (overlappingBars st ! i) var (new_varAlignInfo n) opts
               = Some (align_infos st ! i))
      \<and> nAlleles (cur_vai st) = n \<and> length (alignS (cur_vai st)) = n)"

text \<open>
  What the candidates are in terms of the reads \<open>seen\<close> so far: their names are the names of
  the reads among them that pass the filters, and each candidate is the last read of its
  name that passes.
\<close>

definition parseSel :: "int \<Rightarrow> LRCOptions \<Rightarrow> BamAlignmentRecord list \<Rightarrow> parseState \<Rightarrow> bool" where
  "parseSel beg opts seen st =
     (b_qName ` set (overlappingBars st) = b_qName ` set (filter (passesFilters beg opts) seen)
      \<and> (\<forall>c\<in>set (overlappingBars st).
             c = last (filter (\<lambda>r. passesFilters beg opts r \<and> b_qName r = b_qName c) seen)))"

section \<open>Alignment of the reads and the processing of a variant\<close>

text \<open>\<^verbatim>\<open>mask\<close>: runs of equal bases collapse to their first base. The source reads \<open>in[0]\<close>.\<close>

fun maskTail :: "'a \<Rightarrow> 'a list \<Rightarrow> 'a list" where
  "maskTail prev [] = []"
| "maskTail prev (x # xs) = (if x \<noteq> prev then x # maskTail x xs else maskTail x xs)"

fun mask_seq :: "'a list \<Rightarrow> 'a list option" where
  "mask_seq [] = None"
| "mask_seq (x # xs) = Some (x # maskTail x xs)"

text \<open>
  The banded local aligner is a function of the sequence library, outside the sources at
  hand: it is a parameter \<open>aligner\<close> here, which gets the options (for the scoring scheme),
  whether scores are 32 bits wide, the read, the allele windows and the two band limits, and
  returns one score per window.
\<close>

type_synonym Aligner = "LRCOptions \<Rightarrow> bool \<Rightarrow> TSequence \<Rightarrow> TSequence list \<Rightarrow> int \<Rightarrow> int \<Rightarrow> int list"

text \<open>The body of the loop over the candidate reads in \<^verbatim>\<open>LRprocessReads\<close>.\<close>

definition alignRead ::
  "Aligner \<Rightarrow> VcfRecord \<Rightarrow> nat \<Rightarrow> LRCOptions \<Rightarrow> TSequence \<Rightarrow> TSequence list \<Rightarrow> real \<Rightarrow> int
     \<Rightarrow> BamAlignmentRecord \<times> varAlignInfo \<Rightarrow> varAlignInfo option" where
  "alignRead aligner variant wSizeActual opts refSeq seqsV band_fac vBand bv =
     (case bv of (b, vai) \<Rightarrow>
        (case (if cropRead opts
               then (case cropSeq b variant (int wSizeActual) opts of
                       Some (rBeg, rEnd, Some s) \<Rightarrow> Some s
                     | _ \<Rightarrow> None)
               else Some (map toDna5 (b_seq b))) of
           None \<Rightarrow> None
         | Some seqToAlign \<Rightarrow>
            (let hBand = trunc (real (length seqToAlign) * band_fac);
                 wide = (length refSeq > 32767 \<and> length seqToAlign > 32767);
                 scores = aligner opts wide seqToAlign seqsV (- vBand) hBand
             in Some (vai\<lparr>alignS := map (\<lambda>j. real_of_int (scores ! j))
                                        [0..<length (alignS vai)]\<rparr>))))"

text \<open>
  \<^verbatim>\<open>LRprocessReads\<close> returns the evidence records with the alignment scores filled in;
  \<open>None\<close> where the source would read outside a sequence.
\<close>

definition LRprocessReads ::
  "Aligner \<Rightarrow> VcfRecord \<Rightarrow> string \<Rightarrow> FaiIndex \<Rightarrow> BamAlignmentRecord list \<Rightarrow> varAlignInfo list
     \<Rightarrow> nat \<Rightarrow> LRCOptions \<Rightarrow> varAlignInfo list option" where
  "LRprocessReads aligner variant chrom faiI bars vais wSizeActual opts =
     (let (refSeq0, altSeqs) = getLocRefAlt variant faiI chrom wSizeActual opts
      in if outputRefAlt opts then Some vais
         else
           (case (if mask opts then mask_seq refSeq0 else Some refSeq0) of
              None \<Rightarrow> None
            | Some refSeq \<Rightarrow>
               (let band_fac = min (bandedAlignmentPercent opts) 100 / 100;
                    seqsV = refSeq # altSeqs;
                    vBand = trunc (real (length refSeq) * band_fac)
                in those (map (alignRead aligner variant wSizeActual opts refSeq seqsV band_fac vBand)
                            (zip bars vais)))))"

text \<open>
  The body of the loop over the variants in \<^verbatim>\<open>processChunk\<close>, given the reads of the chunk
  and \<open>wSizeActual\<close>: selection of the reads, alignment, one aggregation per model (the name
  lists are shared by the models), and the result string of the last model written into
  the variant record.
\<close>

definition modelRow ::
  "VcfRecord \<Rightarrow> varAlignInfo list \<Rightarrow> nat \<Rightarrow> nat \<Rightarrow> LRCOptions \<Rightarrow> genotyping_model
     \<Rightarrow> (real list \<times> nat list \<times> nat list) list \<times> string list
     \<Rightarrow> (real list \<times> nat list \<times> nat list) list \<times> string list" where
  "modelRow var vais n wSizeActual opts gtm s =
     (case s of (rows, VA_QNAMES) \<Rightarrow>
        (let (vC, AD, VA, VA_QNAMES') =
               multiUpdateVC var vais (replicate (n * (n + 1) div 2) 0) (replicate (n + 1) 0)
                 (replicate (n + 1) 0) VA_QNAMES wSizeActual opts gtm
         in (rows @ [(vC, AD, VA)], VA_QNAMES')))"

definition writeRow :: "string list \<Rightarrow> real list \<times> nat list \<times> nat list \<Rightarrow> VcfRecord option \<Rightarrow> VcfRecord option" where
  "writeRow VA_QNAMES row varO =
     (case varO of
        None \<Rightarrow> None
      | Some var \<Rightarrow>
         (case row of (vC, AD, VA) \<Rightarrow>
            (case getGtString vC AD VA VA_QNAMES of
               None \<Rightarrow> None
             | Some (lls, gtString) \<Rightarrow>
                Some (var\<lparr>v_genotypeInfos := (v_genotypeInfos var)[0 := gtString],
                         v_format := ''GT:AD:VA:PL:REFREADS:ALTREADS''\<rparr>))))"

definition processVariant ::
  "Aligner \<Rightarrow> BamAlignmentRecord list \<Rightarrow> VcfRecord \<Rightarrow> FaiIndex \<Rightarrow> string \<Rightarrow> nat \<Rightarrow> LRCOptions
     \<Rightarrow> VcfRecord option" where
  "processVariant aligner bars var faIndex chrom wSizeActual opts =
     (let nAllelesV = 2 + count_list (v_alt var) CHR '','';
          models = (if gtModel opts = multi then [ad, va, joint, presence, va_old]
                    else [gtModel opts])
      in case parseReads bars var wSizeActual opts of
           None \<Rightarrow> None
         | Some (overlappingBarsV, alignInfos) \<Rightarrow>
            (case LRprocessReads aligner var chrom faIndex overlappingBarsV alignInfos
                    wSizeActual opts of
               None \<Rightarrow> None
             | Some alignInfos' \<Rightarrow>
                (let (rows, VA_QNAMES) =
                       fold (modelRow var alignInfos' nAllelesV wSizeActual opts) models
                         ([], replicate (nAllelesV + 1) [])
                 in fold (writeRow VA_QNAMES) rows (Some var))))"

section \<open>Concrete inputs\<close>

definition exOptions :: LRCOptions where
  "exOptions = \<lparr>wSize = 10, dynamicWSize = False, genotypeRightBreakpoint = False, varWindow = 5,
     minDelIns = 6, maxSoftClipped = 500, maxBARcount = 200, minMapQ = 30, match = 1,
     mismatch = - 1, gapOpen = - 1, gapExtend = - 1, bandedAlignmentPercent = 100,
     logScaleFactor = 2,
     maxAlignBits = 10, overlapBits = 10, altThreshFraction = 1 / 2, altThreshFractionMax = 100,
     refThreshFraction = 1 / 10, minPresent = 30, cropRead = True, mask = False,
     outputRefAlt = False, gtModel = joint\<rparr>"

definition exVai :: varAlignInfo where
  "exVai = \<lparr>qname = ''r1'', nD = 0, nI = 8, nAlleles = 2, alignS = [20, 36],
     softClipped = False, alignsLeft = True, alignsRight = True\<rparr>"

definition exVar :: VcfRecord where
  "exVar = \<lparr>v_beginPos = 500, v_ref = ''A'', v_alt = ''ATGTGTGTG'', v_info = ''SVLEN=8'',
     v_format = '''', v_genotypeInfos = ['''']\<rparr>"

definition exVai3 :: varAlignInfo where
  "exVai3 = \<lparr>qname = ''r2'', nD = 0, nI = 0, nAlleles = 3, alignS = [38, 40, 30],
     softClipped = False, alignsLeft = True, alignsRight = True\<rparr>"

definition exFai :: FaiIndex where
  "exFai = [(''chr1'', ''ACGTACGTACGTACGTACGTACGTACGTACGT'')]"

definition exVarSmall :: VcfRecord where
  "exVarSmall = \<lparr>v_beginPos = 10, v_ref = ''GT'', v_alt = ''G,GTTTACCA,'', v_info = '''',
     v_format = '''', v_genotypeInfos = ['''']\<rparr>"

definition exReadEnd :: BamAlignmentRecord where
  "exReadEnd = \<lparr>b_qName = ''r4'', b_flag = 0, b_beginPos = 480, b_mapQ = 60,
     b_cigar = [\<lparr>operation = CHR ''M'', count = 10\<rparr>], b_seq = ''ACGTACGTAC''\<rparr>"

definition exReadInside :: BamAlignmentRecord where
  "exReadInside = \<lparr>b_qName = ''r5'', b_flag = 0, b_beginPos = 495, b_mapQ = 60,
     b_cigar = [\<lparr>operation = CHR ''M'', count = 30\<rparr>],
     b_seq = ''ACGTACGTACGTACGTACGTACGTACGTAC''\<rparr>"

definition exReadLeft :: BamAlignmentRecord where
  "exReadLeft = \<lparr>b_qName = ''r6'', b_flag = 0, b_beginPos = 480, b_mapQ = 60,
     b_cigar = [\<lparr>operation = CHR ''M'', count = 22\<rparr>, \<lparr>operation = CHR ''I'', count = 8\<rparr>],
     b_seq = ''ACGTACGTACGTACGTACGTACGTACGTAC''\<rparr>"

definition exOptions2 :: LRCOptions where
  "exOptions2 = exOptions\<lparr>maxBARcount := 2\<rparr>"

definition exVarX :: VcfRecord where
  "exVarX = \<lparr>v_beginPos = 10, v_ref = ''G'', v_alt = ''GTT'', v_info = '''',
     v_format = '''', v_genotypeInfos = ['''']\<rparr>"

definition exReadX :: BamAlignmentRecord where
  "exReadX = \<lparr>b_qName = ''rX'', b_flag = 0, b_beginPos = 2, b_mapQ = 60,
     b_cigar = [\<lparr>operation = CHR ''M'', count = 20\<rparr>], b_seq = ''GTACGTACGTTTACGTACGT''\<rparr>"

definition exVaiX :: varAlignInfo where
  "exVaiX = \<lparr>qname = ''rX'', nD = 0, nI = 0, nAlleles = 2,
     alignS = [real_of_int NO_ALIGNMENT, real_of_int NO_ALIGNMENT],
     softClipped = False, alignsLeft = True, alignsRight = True\<rparr>"

definition exRefWindow :: TSequence where
  "exRefWindow = [DnaG, DnaT, DnaA, DnaC, DnaG, DnaT, DnaA, DnaC]"

definition exAltWindow :: TSequence where
  "exAltWindow = [DnaG, DnaT, DnaA, DnaC, DnaG, DnaT, DnaT, DnaT]"

definition exVarTwoAlts :: VcfRecord where
  "exVarTwoAlts = \<lparr>v_beginPos = 500, v_ref = ''A'', v_alt = ''ATTTT,ATTTTTTTT'', v_info = '''',
     v_format = '''', v_genotypeInfos = ['''']\<rparr>"

definition exOptionsOb :: LRCOptions where
  "exOptionsOb = exOptions\<lparr>overlapBits := 12582915 / 4194304\<rparr>"

definition exVaiSpread :: varAlignInfo where
  "exVaiSpread = \<lparr>qname = ''r7'', nD = 0, nI = 0, nAlleles = 3, alignS = [28, 36, 32],
     softClipped = False, alignsLeft = True, alignsRight = True\<rparr>"

definition exReadGap :: BamAlignmentRecord where
  "exReadGap = \<lparr>b_qName = ''r8'', b_flag = 0, b_beginPos = 2, b_mapQ = 60,
     b_cigar = [\<lparr>operation = CHR ''M'', count = 1\<rparr>, \<lparr>operation = CHR ''N'', count = 100\<rparr>,
                \<lparr>operation = CHR ''I'', count = 9\<rparr>],
     b_seq = ''ACGTACGTAC''\<rparr>"

definition exVaiGap :: varAlignInfo where
  "exVaiGap = \<lparr>qname = ''r8'', nD = 0, nI = 0, nAlleles = 2,
     alignS = [real_of_int NO_ALIGNMENT, real_of_int NO_ALIGNMENT],
     softClipped = False, alignsLeft = True, alignsRight = False\<rparr>"

definition exReadLeft2 :: BamAlignmentRecord where
  "exReadLeft2 = exReadLeft\<lparr>b_beginPos := 481\<rparr>"

definition exReadMid :: BamAlignmentRecord where
  "exReadMid = exReadInside\<lparr>b_beginPos := 485\<rparr>"

definition exReadMid2 :: BamAlignmentRecord where
  "exReadMid2 = exReadInside\<lparr>b_qName := ''r9'', b_beginPos := 488\<rparr>"

section \<open>Arithmetic of sizes\<close>


section \<open>Rounding\<close>

lemma roundToEven_of_int [simp]: "roundToEven (of_int k) = k"
  by (simp add: roundToEven_def)

lemma roundToEven_zero [simp]: "roundToEven 0 = 0"
  using roundToEven_of_int[of 0] by simp

lemma roundToEven_cases: "roundToEven r = \<lfloor>r\<rfloor> \<or> roundToEven r = \<lfloor>r\<rfloor> + 1"
  by (simp add: roundToEven_def Let_def)

lemma roundToEven_mono: "r \<le> s \<Longrightarrow> roundToEven r \<le> roundToEven s"
proof -
  assume rs: "r \<le> s"
  then have fl: "\<lfloor>r\<rfloor> \<le> \<lfloor>s\<rfloor>" by (rule floor_mono)
  show ?thesis
  proof (cases "\<lfloor>r\<rfloor> = \<lfloor>s\<rfloor>")
    case True
    with rs show ?thesis by (auto simp: roundToEven_def Let_def)
  next
    case False
    with fl have "\<lfloor>r\<rfloor> + 1 \<le> \<lfloor>s\<rfloor>" by simp
    moreover have "roundToEven r \<le> \<lfloor>r\<rfloor> + 1" using roundToEven_cases[of r] by auto
    moreover have "\<lfloor>s\<rfloor> \<le> roundToEven s" using roundToEven_cases[of s] by auto
    ultimately show ?thesis by linarith
  qed
qed

lemma roundToEven_minus: "roundToEven (- r) = - roundToEven r"
proof (cases "r = of_int \<lfloor>r\<rfloor>")
  case True
  then obtain k where "r = of_int k" ..
  then show ?thesis by (simp flip: of_int_minus)
next
  case False
  then have c: "\<lfloor>- r\<rfloor> = - \<lfloor>r\<rfloor> - 1"
    by (simp add: floor_minus ceiling_altdef)
  show ?thesis
    unfolding roundToEven_def Let_def c by auto
qed

lemma roundToEven_near: "\<bar>r - of_int k\<bar> < 1 / 2 \<Longrightarrow> roundToEven r = k"
proof -
  assume a: "\<bar>r - of_int k\<bar> < 1 / 2"
  show ?thesis
  proof (cases "of_int k \<le> r")
    case True
    with a have "\<lfloor>r\<rfloor> = k" by (intro floor_unique) auto
    with a True show ?thesis by (auto simp: roundToEven_def Let_def)
  next
    case False
    with a have "\<lfloor>r\<rfloor> = k - 1" by (intro floor_unique) auto
    with a False show ?thesis by (auto simp: roundToEven_def Let_def)
  qed
qed

lemma binade_ge: "e \<le> binade n e x"
proof (induction n arbitrary: e)
  case 0
  show ?case by simp
next
  case (Suc n)
  from Suc[of "e + 1"] show ?case by auto
qed

lemma binade_le: "binade n e x \<le> e + int n"
proof (induction n arbitrary: e)
  case 0
  show ?case by simp
next
  case (Suc n)
  from Suc[of "e + 1"] show ?case by auto
qed

lemma binade_lower: "e < binade n e x \<Longrightarrow> 2 powi (binade n e x) \<le> x"
proof (induction n arbitrary: e)
  case 0
  then show ?case by simp
next
  case (Suc n)
  show ?case
  proof (cases "2 powi (e + 1) \<le> x")
    case True
    then have b: "binade (Suc n) e x = binade n (e + 1) x" by simp
    show ?thesis
    proof (cases "e + 1 < binade n (e + 1) x")
      case True
      from Suc.IH[OF this] b show ?thesis by simp
    next
      case False
      with binade_ge[of "e + 1" n x] have "binade n (e + 1) x = e + 1" by simp
      with b \<open>2 powi (e + 1) \<le> x\<close> show ?thesis by simp
    qed
  next
    case False
    with Suc.prems show ?thesis by simp
  qed
qed

lemma binade_upper: "binade n e x < e + int n \<Longrightarrow> x < 2 powi (binade n e x + 1)"
proof (induction n arbitrary: e)
  case 0
  then show ?case by simp
next
  case (Suc n)
  show ?case
  proof (cases "2 powi (e + 1) \<le> x")
    case True
    then have b: "binade (Suc n) e x = binade n (e + 1) x" by simp
    with Suc.prems have "binade n (e + 1) x < e + 1 + int n" by simp
    from Suc.IH[OF this] b show ?thesis by simp
  next
    case False
    then show ?thesis by simp
  qed
qed

lemma binade_mono: "x \<le> y \<Longrightarrow> binade n e x \<le> binade n e y"
proof (induction n arbitrary: e)
  case 0
  show ?case by simp
next
  case (Suc n)
  show ?case
  proof (cases "2 powi (e + 1) \<le> x")
    case True
    with Suc.prems have "2 powi (e + 1) \<le> y" by simp
    with True Suc.IH[OF Suc.prems, of "e + 1"] show ?thesis by simp
  next
    case False
    then have "binade (Suc n) e x = e" by simp
    with binade_ge[of e "Suc n" y] show ?thesis by simp
  qed
qed

lemma pow2_increasing: "a \<le> b \<Longrightarrow> (2 :: real) powi a \<le> 2 powi b"
  by (rule power_int_increasing) simp_all

lemma pow2_strict: "a < b \<Longrightarrow> (2 :: real) powi a < 2 powi b"
  by (rule power_int_strict_increasing) simp_all

lemma pow2_pos [simp]: "0 < (2 :: real) powi a"
  by (rule zero_less_power_int) simp

lemma pow2_quot: "(2 :: real) powi a / 2 powi b = 2 powi (a - b)"
  by (simp add: power_int_diff)

lemma pow2_int: "0 \<le> a \<Longrightarrow> (2 :: real) powi a = of_int (2 ^ nat a)"
  by (simp add: power_int_nonneg_exp)

text \<open>How to find the binade of a given number.\<close>

lemma binade_eq:
  assumes "e0 \<le> e" and "e \<le> e0 + int n" and "e0 < e \<Longrightarrow> 2 powi e \<le> x" and "x < 2 powi (e + 1)"
  shows "binade n e0 x = e"
proof -
  let ?b = "binade n e0 x"
  have "\<not> ?b < e"
  proof
    assume lt: "?b < e"
    with assms(2) have "?b < e0 + int n" by simp
    from binade_upper[OF this] have "x < 2 powi (?b + 1)" .
    moreover from lt binade_ge[of e0 n x] have "e0 < e" by simp
    from assms(3)[OF this] have "2 powi e \<le> x" .
    moreover from lt have "(2 :: real) powi (?b + 1) \<le> 2 powi e" by (intro pow2_increasing) simp
    ultimately show False by simp
  qed
  moreover have "\<not> e < ?b"
  proof
    assume gt: "e < ?b"
    with assms(1) have "e0 < ?b" by simp
    from binade_lower[OF this] have "2 powi ?b \<le> x" .
    moreover from gt have "(2 :: real) powi (e + 1) \<le> 2 powi ?b" by (intro pow2_increasing) simp
    ultimately show False using assms(4) by simp
  qed
  ultimately show ?thesis by simp
qed

lemma binade_bound:
  assumes "x < 2 powi (b + 1)" and "e0 \<le> b"
  shows "binade n e0 x \<le> b"
proof (rule ccontr)
  assume "\<not> binade n e0 x \<le> b"
  then have gt: "b < binade n e0 x" by simp
  with assms(2) have "e0 < binade n e0 x" by simp
  from binade_lower[OF this] have "2 powi (binade n e0 x) \<le> x" .
  moreover from gt have "(2 :: real) powi (b + 1) \<le> 2 powi (binade n e0 x)"
    by (intro pow2_increasing) simp
  ultimately show False using assms(1) by simp
qed

subsection \<open>Rounding to a binary format\<close>

lemma roundBin_minus: "roundBin p emin fuel (- x) = - roundBin p emin fuel x"
  by (simp add: roundBin_def Let_def roundToEven_minus)

lemma roundBin_zero [simp]: "roundBin p emin fuel 0 = 0"
  by (simp add: roundBin_def)

text \<open>A number on the grid of \<open>x\<close> bounds the rounded \<open>x\<close> as it bounds \<open>x\<close>.\<close>

lemma roundBin_le_grid:
  assumes "x \<le> c" and "c / 2 powi (binade fuel emin \<bar>x\<bar> - int p + 1) = of_int k"
  shows "roundBin p emin fuel x \<le> c"
proof -
  let ?q = "(2 :: real) powi (binade fuel emin \<bar>x\<bar> - int p + 1)"
  have q: "0 < ?q" by simp
  from assms(1) q have "x / ?q \<le> c / ?q" by (simp add: divide_right_mono)
  with assms(2) have "x / ?q \<le> of_int k" by simp
  from roundToEven_mono[OF this] have "roundToEven (x / ?q) \<le> k" by simp
  then have "of_int (roundToEven (x / ?q)) * ?q \<le> of_int k * ?q"
    using q by (simp add: mult_right_mono)
  also have "of_int k * ?q = c" using assms(2) q by (simp add: field_simps)
  finally show ?thesis by (simp add: roundBin_def Let_def)
qed

lemma roundBin_ge_grid:
  assumes "c \<le> x" and "c / 2 powi (binade fuel emin \<bar>x\<bar> - int p + 1) = of_int k"
  shows "c \<le> roundBin p emin fuel x"
proof -
  let ?q = "(2 :: real) powi (binade fuel emin \<bar>x\<bar> - int p + 1)"
  have q: "0 < ?q" by simp
  from assms(1) q have "c / ?q \<le> x / ?q" by (simp add: divide_right_mono)
  with assms(2) have "of_int k \<le> x / ?q" by simp
  from roundToEven_mono[OF this] have "k \<le> roundToEven (x / ?q)" by simp
  then have "of_int k * ?q \<le> of_int (roundToEven (x / ?q)) * ?q"
    using q by (simp add: mult_right_mono)
  moreover have "of_int k * ?q = c" using assms(2) q by (simp add: field_simps)
  ultimately show ?thesis by (simp add: roundBin_def Let_def)
qed

lemma roundBin_exact:
  assumes "x / 2 powi (binade fuel emin \<bar>x\<bar> - int p + 1) = of_int k"
  shows "roundBin p emin fuel x = x"
  using roundBin_le_grid[OF order_refl assms] roundBin_ge_grid[OF order_refl assms] by simp

lemma roundBin_nonneg: "0 \<le> x \<Longrightarrow> 0 \<le> roundBin p emin fuel x"
  by (rule roundBin_ge_grid[where k = 0]) simp_all

lemma roundBin_nonpos: "x \<le> 0 \<Longrightarrow> roundBin p emin fuel x \<le> 0"
  by (rule roundBin_le_grid[where k = 0]) simp_all

lemma roundBin_mono_nonneg:
  assumes "0 < p" and "0 \<le> x" and "x \<le> y"
  shows "roundBin p emin fuel x \<le> roundBin p emin fuel y"
proof -
  let ?ex = "binade fuel emin \<bar>x\<bar>" and ?ey = "binade fuel emin \<bar>y\<bar>"
  from assms have ax: "\<bar>x\<bar> = x" and ay: "\<bar>y\<bar> = y" by simp_all
  from assms have le: "?ex \<le> ?ey" by (intro binade_mono) simp
  show ?thesis
  proof (cases "?ex = ?ey")
    case True
    let ?q = "(2 :: real) powi (?ex - int p + 1)"
    have q: "0 < ?q" by simp
    from assms(3) q have "x / ?q \<le> y / ?q" by (simp add: divide_right_mono)
    from roundToEven_mono[OF this]
    have "of_int (roundToEven (x / ?q)) * ?q \<le> of_int (roundToEven (y / ?q)) * ?q"
      using q by (simp add: mult_right_mono)
    then show ?thesis unfolding roundBin_def Let_def True[symmetric] .
  next
    case False
    with le have lt: "?ex < ?ey" by simp
    from binade_ge[of emin fuel "\<bar>x\<bar>"] lt have "emin < ?ey" by simp
    from binade_lower[OF this] ay have ylo: "2 powi ?ey \<le> y" by simp
    from binade_le[of fuel emin "\<bar>y\<bar>"] lt have "?ex < emin + int fuel" by simp
    from binade_upper[OF this] ax have xhi: "x \<le> 2 powi (?ex + 1)" by simp
    have "(2 :: real) powi (?ex + 1) / 2 powi (?ex - int p + 1) = of_int (2 ^ p)"
      by (simp add: pow2_quot power_int_of_nat)
    from roundBin_le_grid[OF xhi this]
    have a: "roundBin p emin fuel x \<le> 2 powi (?ex + 1)" .
    have "(2 :: real) powi ?ey / 2 powi (?ey - int p + 1) = 2 powi (int (p - 1))"
      using assms(1) by (simp add: pow2_quot of_nat_diff)
    then have "(2 :: real) powi ?ey / 2 powi (?ey - int p + 1) = of_int (2 ^ (p - 1))"
      unfolding power_int_of_nat by simp
    from roundBin_ge_grid[OF ylo this]
    have b: "2 powi ?ey \<le> roundBin p emin fuel y" .
    from lt have "(2 :: real) powi (?ex + 1) \<le> 2 powi ?ey" by (intro pow2_increasing) simp
    with a b show ?thesis by simp
  qed
qed

lemma roundBin_mono:
  assumes "0 < p" and "x \<le> y"
  shows "roundBin p emin fuel x \<le> roundBin p emin fuel y"
proof (cases "0 \<le> x")
  case True
  from roundBin_mono_nonneg[OF assms(1) True assms(2)] show ?thesis .
next
  case False
  show ?thesis
  proof (cases "0 \<le> y")
    case True
    from False have "roundBin p emin fuel x \<le> 0" by (intro roundBin_nonpos) simp
    moreover from True have "0 \<le> roundBin p emin fuel y" by (rule roundBin_nonneg)
    ultimately show ?thesis by simp
  next
    case y: False
    then have "0 \<le> - y" by simp
    moreover from assms(2) have "- y \<le> - x" by simp
    ultimately have "roundBin p emin fuel (- y) \<le> roundBin p emin fuel (- x)"
      by (rule roundBin_mono_nonneg[OF assms(1)])
    then show ?thesis by (simp add: roundBin_minus)
  qed
qed

lemma roundBin_idem_nonneg:
  assumes "0 < p" and "0 \<le> x"
  shows "roundBin p emin fuel (roundBin p emin fuel x) = roundBin p emin fuel x"
proof -
  let ?v = "roundBin p emin fuel x"
  let ?ex = "binade fuel emin \<bar>x\<bar>" and ?ev = "binade fuel emin \<bar>?v\<bar>"
  let ?k = "roundToEven (x / 2 powi (?ex - int p + 1))"
  have v: "?v = of_int ?k * 2 powi (?ex - int p + 1)" by (simp add: roundBin_def Let_def)
  from assms(2) have v0: "0 \<le> ?v" by (rule roundBin_nonneg)
  then have av: "\<bar>?v\<bar> = ?v" by simp
  from assms(2) have ax: "\<bar>x\<bar> = x" by simp
  have "\<exists>k. ?v / 2 powi (?ev - int p + 1) = of_int k"
  proof (cases "?ev \<le> ?ex")
    case True
    have "?v / 2 powi (?ev - int p + 1)
        = of_int ?k * (2 powi (?ex - int p + 1) / 2 powi (?ev - int p + 1))"
      by (subst v) simp
    also have "2 powi (?ex - int p + 1) / 2 powi (?ev - int p + 1) = (2 :: real) powi (?ex - ?ev)"
      by (simp add: pow2_quot)
    also have "\<dots> = of_int (2 ^ nat (?ex - ?ev))" using True by (intro pow2_int) simp
    finally have "?v / 2 powi (?ev - int p + 1) = of_int (?k * 2 ^ nat (?ex - ?ev))" by simp
    then show ?thesis ..
  next
    case False
    then have lt: "?ex < ?ev" by simp
    from binade_ge[of emin fuel "\<bar>x\<bar>"] lt have "emin < ?ev" by simp
    from binade_lower[OF this] av have lo: "2 powi ?ev \<le> ?v" by simp
    from binade_le[of fuel emin "\<bar>?v\<bar>"] lt have "?ex < emin + int fuel" by simp
    from binade_upper[OF this] ax have xhi: "x \<le> 2 powi (?ex + 1)" by simp
    have "(2 :: real) powi (?ex + 1) / 2 powi (?ex - int p + 1) = of_int (2 ^ p)"
      by (simp add: pow2_quot power_int_of_nat)
    from roundBin_le_grid[OF xhi this] have hi: "?v \<le> 2 powi (?ex + 1)" .
    from lt have "(2 :: real) powi (?ex + 1) \<le> 2 powi ?ev" by (intro pow2_increasing) simp
    with lo hi have eq: "?v = 2 powi ?ev" by simp
    have "(2 :: real) powi ?ev / 2 powi (?ev - int p + 1) = 2 powi (int (p - 1))"
      using assms(1) by (simp add: pow2_quot of_nat_diff)
    then have "(2 :: real) powi ?ev / 2 powi (?ev - int p + 1) = of_int (2 ^ (p - 1))"
      unfolding power_int_of_nat by simp
    then have "?v / 2 powi (?ev - int p + 1) = of_int (2 ^ (p - 1))"
      using eq by simp
    then show ?thesis ..
  qed
  then obtain k where "?v / 2 powi (?ev - int p + 1) = of_int k" ..
  then show ?thesis by (rule roundBin_exact)
qed

lemma roundBin_idem:
  assumes "0 < p"
  shows "roundBin p emin fuel (roundBin p emin fuel x) = roundBin p emin fuel x"
proof (cases "0 \<le> x")
  case True
  from roundBin_idem_nonneg[OF assms True] show ?thesis .
next
  case False
  then have "0 \<le> - x" by simp
  from roundBin_idem_nonneg[OF assms this, of emin fuel] show ?thesis
    by (simp add: roundBin_minus)
qed

lemma roundBin_exact_dyadic:
  assumes "\<bar>x\<bar> < 2 ^ B" and "x * 2 ^ j = of_int k" and "B + j \<le> p" and "emin < int B"
  shows "roundBin p emin fuel x = x"
proof -
  let ?e = "binade fuel emin \<bar>x\<bar>"
  have "\<bar>x\<bar> < 2 powi (int B - 1 + 1)" using assms(1) by (simp add: power_int_of_nat)
  from binade_bound[OF this] assms(4) have e: "?e \<le> int B - 1" by simp
  with assms(3) have n: "0 \<le> int p - 1 - ?e - int j" by simp
  have "x / 2 powi (?e - int p + 1) = x * 2 powi (- (?e - int p + 1))"
    unfolding power_int_minus by (simp add: divide_inverse)
  also have "\<dots> = x * 2 powi (int j + (int p - 1 - ?e - int j))"
    by (rule arg_cong[where f = "\<lambda>a. x * 2 powi a"]) simp
  also have "\<dots> = x * (2 powi int j * 2 powi (int p - 1 - ?e - int j))"
    by (subst power_int_add) simp_all
  also have "\<dots> = x * 2 ^ j * 2 powi (int p - 1 - ?e - int j)"
    by (simp only: power_int_of_nat mult.assoc)
  also have "\<dots> = of_int k * of_int (2 ^ nat (int p - 1 - ?e - int j))"
    unfolding assms(2) pow2_int[OF n] ..
  finally have "x / 2 powi (?e - int p + 1) = of_int (k * 2 ^ nat (int p - 1 - ?e - int j))"
    by simp
  then show ?thesis by (rule roundBin_exact)
qed

lemma roundBin_eval:
  assumes "emin \<le> e" and "e \<le> emin + int fuel" and "emin < e \<Longrightarrow> 2 powi e \<le> \<bar>x\<bar>"
    and "\<bar>x\<bar> < 2 powi (e + 1)"
  shows "roundBin p emin fuel x = of_int (roundToEven (x / 2 powi (e - int p + 1))) * 2 powi (e - int p + 1)"
  by (simp add: roundBin_def Let_def binade_eq[OF assms])

subsection \<open>Double and single precision\<close>

lemma dbl_zero [simp]: "dbl 0 = 0"
  by (simp add: dbl_def)

lemma sgl_zero [simp]: "sgl 0 = 0"
  by (simp add: sgl_def)

lemma dbl_minus: "dbl (- x) = - dbl x"
  unfolding dbl_def by (rule roundBin_minus)

lemma sgl_minus: "sgl (- x) = - sgl x"
  unfolding sgl_def by (rule roundBin_minus)

lemma dbl_mono: "x \<le> y \<Longrightarrow> dbl x \<le> dbl y"
  unfolding dbl_def by (rule roundBin_mono) simp_all

lemma sgl_mono: "x \<le> y \<Longrightarrow> sgl x \<le> sgl y"
  unfolding sgl_def by (rule roundBin_mono) simp_all

lemma dbl_idem [simp]: "dbl (dbl x) = dbl x"
  unfolding dbl_def by (rule roundBin_idem) simp

lemma sgl_idem [simp]: "sgl (sgl x) = sgl x"
  unfolding sgl_def by (rule roundBin_idem) simp

lemma dbl_exact_dyadic:
  "\<bar>x\<bar> < 2 ^ B \<Longrightarrow> x * 2 ^ j = of_int k \<Longrightarrow> B + j \<le> 53 \<Longrightarrow> dbl x = x"
  unfolding dbl_def by (rule roundBin_exact_dyadic) simp_all

lemma sgl_exact_dyadic:
  "\<bar>x\<bar> < 2 ^ B \<Longrightarrow> x * 2 ^ j = of_int k \<Longrightarrow> B + j \<le> 24 \<Longrightarrow> sgl x = x"
  unfolding sgl_def by (rule roundBin_exact_dyadic) simp_all

lemma dbl_of_int: "\<bar>k\<bar> < 2 ^ 53 \<Longrightarrow> dbl (of_int k) = of_int k"
proof -
  assume "\<bar>k\<bar> < 2 ^ 53"
  then have "\<bar>real_of_int k\<bar> < 2 ^ 53" by (simp flip: of_int_abs add: of_int_less_numeral_power_cancel_iff)
  then show ?thesis by (rule dbl_exact_dyadic[where j = 0 and k = k]) simp_all
qed

lemma sgl_of_int: "\<bar>k\<bar> < 2 ^ 24 \<Longrightarrow> sgl (of_int k) = of_int k"
proof -
  assume "\<bar>k\<bar> < 2 ^ 24"
  then have "\<bar>real_of_int k\<bar> < 2 ^ 24" by (simp flip: of_int_abs add: of_int_less_numeral_power_cancel_iff)
  then show ?thesis by (rule sgl_exact_dyadic[where j = 0 and k = k]) simp_all
qed

lemma dbl_eval:
  assumes "- 1022 \<le> e" and "e \<le> 1023" and "- 1022 < e \<Longrightarrow> 2 powi e \<le> \<bar>x\<bar>"
    and "\<bar>x\<bar> < 2 powi (e + 1)"
  shows "dbl x = of_int (roundToEven (x / 2 powi (e - 52))) * 2 powi (e - 52)"
proof -
  have "roundBin 53 (- 1022) 2045 x
      = of_int (roundToEven (x / 2 powi (e - int 53 + 1))) * 2 powi (e - int 53 + 1)"
    by (rule roundBin_eval) (use assms in simp_all)
  then show ?thesis by (simp add: dbl_def)
qed

lemma sgl_eval:
  assumes "- 126 \<le> e" and "e \<le> 127" and "- 126 < e \<Longrightarrow> 2 powi e \<le> \<bar>x\<bar>"
    and "\<bar>x\<bar> < 2 powi (e + 1)"
  shows "sgl x = of_int (roundToEven (x / 2 powi (e - 23))) * 2 powi (e - 23)"
proof -
  have "roundBin 24 (- 126) 253 x
      = of_int (roundToEven (x / 2 powi (e - int 24 + 1))) * 2 powi (e - int 24 + 1)"
    by (rule roundBin_eval) (use assms in simp_all)
  then show ?thesis by (simp add: sgl_def)
qed

lemma roundToEven_numeral [simp]: "roundToEven (numeral n) = numeral n"
  using roundToEven_of_int[of "numeral n"] by simp

text \<open>Small integers are numbers of both formats.\<close>

lemma dbl_numeral: "(numeral n :: int) < 2 ^ 53 \<Longrightarrow> dbl (numeral n) = numeral n"
  using dbl_of_int[of "numeral n"] by simp

lemma dbl_neg_numeral: "(numeral n :: int) < 2 ^ 53 \<Longrightarrow> dbl (- numeral n) = - numeral n"
  using dbl_of_int[of "- numeral n"] by simp

lemma dbl_one: "dbl 1 = 1"
  using dbl_of_int[of 1] by simp

lemma sgl_numeral: "(numeral n :: int) < 2 ^ 24 \<Longrightarrow> sgl (numeral n) = numeral n"
  using sgl_of_int[of "numeral n"] by simp

lemma sgl_neg_numeral: "(numeral n :: int) < 2 ^ 24 \<Longrightarrow> sgl (- numeral n) = - numeral n"
  using sgl_of_int[of "- numeral n"] by simp

lemma sgl_one: "sgl 1 = 1"
  using sgl_of_int[of 1] by simp

lemmas round_small = dbl_numeral dbl_neg_numeral dbl_one sgl_numeral sgl_neg_numeral sgl_one

section \<open>The \<^verbatim>\<open>va\<close> scorer: properties\<close>



lemma addExcept_length: "length (addExcept k b n pref) = length pref"
  by (induction n) (auto simp: addExcept_def)




section \<open>The \<^verbatim>\<open>ad\<close> scorer: properties\<close>

lemma trunc_of_int [simp]: "trunc (real_of_int z) = z"
  by (simp add: trunc_def)

lemma dbl_12_10: "dbl (12 / 10) = 5404319552844595 / 4503599627370496"
  by (subst dbl_eval[where e = 0]) (simp_all add: roundToEven_def)

text \<open>
  The product with the \<^verbatim>\<open>double\<close> nearest to \<open>1.2\<close> has the integer part of the exact product
  \<open>1.2 * wSizeActual\<close>, for every window size whose product is in the range of \<^verbatim>\<open>int\<close>.
\<close>

lemma minAlignScoreOf_floor:
  assumes "w < 2 ^ 30"
  shows "minAlignScoreOf w = \<lfloor>12 / 10 * real w\<rfloor>"
proof -
  define v where "v = real w * (5404319552844595 / 4503599627370496)"
  define n where "n = (6 * int w) div 5"
  define r where "r = (6 * int w) mod 5"
  from assms have wb: "real w < 2 ^ 30"
    by (metis of_nat_less_iff of_nat_numeral of_nat_power)
  have r: "0 \<le> r" "r \<le> 4" by (simp_all add: r_def)
  have "6 * int w = 5 * n + r" by (simp add: n_def r_def)
  then have "real_of_int (6 * int w) = real_of_int (5 * n + r)" by simp
  then have ex: "12 / 10 * real w = of_int n + of_int r / 5" by simp
  have n0: "0 \<le> n" by (simp add: n_def)
  have nb: "real_of_int n < 2 ^ 31"
  proof -
    from r(1) have "of_int n \<le> 12 / 10 * real w" unfolding ex by simp
    also have "\<dots> < 12 / 10 * 2 ^ 30" using wb by simp
    also have "\<dots> < (2 :: real) ^ 31" by simp
    finally show ?thesis .
  qed
  have fl: "\<lfloor>12 / 10 * real w\<rfloor> = n"
    unfolding ex using r by (intro floor_unique) simp_all
  have vd: "v = 12 / 10 * real w - real w / (5 * 2 ^ 52)" by (simp add: v_def field_simps)
  have v0: "0 \<le> v" by (simp add: v_def)
  have hi: "dbl v \<le> of_int n + 7 / 8"
  proof -
    have "dbl (of_int n + 7 / 8) = of_int n + 7 / 8"
    proof (rule dbl_exact_dyadic[where B = 32 and j = 3 and k = "8 * n + 7"])
      show "\<bar>real_of_int n + 7 / 8\<bar> < 2 ^ 32" using n0 nb by simp
      show "(real_of_int n + 7 / 8) * 2 ^ 3 = real_of_int (8 * n + 7)" by simp
      show "32 + 3 \<le> (53 :: nat)" by simp
    qed
    moreover have "v \<le> of_int n + 7 / 8" unfolding vd ex using r(2) by simp
    ultimately show ?thesis using dbl_mono[of v "of_int n + 7 / 8"] by simp
  qed
  have dn: "dbl (of_int n) = of_int n"
  proof (rule dbl_of_int)
    from nb have "real_of_int n < real_of_int (2 ^ 53)" by simp
    then have "n < 2 ^ 53" by (simp only: of_int_less_iff)
    with n0 show "\<bar>n\<bar> < 2 ^ 53" by simp
  qed
  have lo: "of_int n \<le> dbl v"
  proof (cases "r = 0")
    case False
    with r(1) have "1 \<le> r" by simp
    then have "of_int n + 1 / 5 \<le> 12 / 10 * real w" unfolding ex by simp
    moreover have "real w / (5 * 2 ^ 52) \<le> 1 / 5" using wb by simp
    ultimately have "of_int n \<le> v" unfolding vd by simp
    from dbl_mono[OF this] dn show ?thesis by simp
  next
    case True
    then have en: "12 / 10 * real w = of_int n" unfolding ex by simp
    show ?thesis
    proof (cases "w = 0")
      case True
      then have "v = 0" "n = 0" by (simp_all add: v_def n_def)
      then show ?thesis by simp
    next
      case False
      then have w1: "1 \<le> real w" by simp
      let ?e = "binade 2045 (- 1022) \<bar>v\<bar>"
      let ?q = "(2 :: real) powi (?e - 52)"
      have av: "\<bar>v\<bar> = v" using v0 by simp
      have vw: "real w \<le> v" unfolding vd using w1 by (simp add: field_simps)
      have "v \<le> of_int n" unfolding vd en by simp
      with nb have "\<bar>v\<bar> < 2 powi (31 + 1)" using av by simp
      from binade_bound[OF this] have e31: "?e \<le> 31" by simp
      then have "?e < - 1022 + int 2045" by simp
      from binade_upper[OF this] av have "v < 2 powi (?e + 1)" by simp
      also have "\<dots> = 2 * 2 powi ?e" by (simp add: power_int_add)
      finally have ve: "v < 2 * 2 powi ?e" .
      with vw have we: "real w < 2 * 2 powi ?e" by simp
      from e31 have p: "0 \<le> 52 - ?e" by simp
      have "of_int n / ?q = of_int n * 2 powi (52 - ?e)"
        by (simp add: power_int_diff)
      also have "\<dots> = of_int (n * 2 ^ nat (52 - ?e))" unfolding pow2_int[OF p] by simp
      finally have nq: "of_int n / ?q = of_int (n * 2 ^ nat (52 - ?e))" .
      have "v / ?q - of_int n / ?q = - (real w / (5 * 2 ^ 52)) / ?q"
        unfolding vd en by (simp add: field_simps)
      also have "\<dots> = - (real w / (5 * 2 powi ?e))"
        by (simp add: power_int_diff power_int_of_nat)
      finally have "\<bar>v / ?q - of_int n / ?q\<bar> = real w / (5 * 2 powi ?e)" by simp
      also have "\<dots> < 1 / 2" using we by (simp add: field_simps)
      finally have "\<bar>v / ?q - of_int (n * 2 ^ nat (52 - ?e))\<bar> < 1 / 2" unfolding nq .
      from roundToEven_near[OF this]
      have "dbl v = of_int (n * 2 ^ nat (52 - ?e)) * ?q"
        by (simp add: dbl_def roundBin_def Let_def)
      also have "\<dots> = of_int n" unfolding nq[symmetric] by simp
      finally show ?thesis by simp
    qed
  qed
  have dw: "dbl (real w) = real w" using dbl_of_int[of "int w"] assms by simp
  have "minAlignScoreOf w = trunc (dbl v)"
    unfolding minAlignScoreOf_def dbl_12_10 dw v_def ..
  also have "\<dots> = \<lfloor>dbl v\<rfloor>" using lo n0 by (simp add: trunc_def)
  also have "\<dots> = n" using lo hi by (intro floor_unique) simp_all
  finally show ?thesis unfolding fl .
qed

lemma apUpdate_length: "length (apUpdate opts ms mn als n pref) = length pref"
  by (induction n) (auto simp: apUpdate_def)








section \<open>The result string: properties\<close>

lemma gtIndex_next_row: "gtIndex (Suc a) 0 = Suc (gtIndex a a)"
proof -
  have "Suc a * (Suc a + 1) = a * (a + 1) + (a + 1) * 2" by simp
  then have "Suc a * (Suc a + 1) div 2 = (a * (a + 1) + (a + 1) * 2) div 2" by simp
  also have "\<dots> = a * (a + 1) div 2 + (a + 1)"
  proof -
    have "(x + y * 2) div 2 = x div 2 + y" for x y :: nat by presburger
    then show ?thesis .
  qed
  finally show ?thesis by (simp add: gtIndex_def)
qed

lemma gtIndex_next_col: "gtIndex a (Suc b) = Suc (gtIndex a b)"
  by (simp add: gtIndex_def)

lemma gtStep_eq:
  "gtStep lls i (maxP, a1, a2, maxA1, maxA2) =
     (if lls ! i > maxP then lls ! i else maxP,
      if a2 < a1 then a1 else a1 + 1,
      if a2 < a1 then a2 + 1 else 0,
      if lls ! i > maxP then a1 else maxA1,
      if lls ! i > maxP then a2 else maxA2)"
  by (simp add: gtStep_def)

lemma gtSearch_inv:
  assumes "0 < n"
  shows "(case gtSearch lls n of (maxP, a1, a2, maxA1, maxA2) \<Rightarrow>
            a2 \<le> a1 \<and> gtIndex a1 a2 = n \<and> maxA2 \<le> maxA1 \<and> gtIndex maxA1 maxA2 < n
          \<and> maxP = lls ! gtIndex maxA1 maxA2
          \<and> (\<forall>i<n. lls ! i \<le> maxP) \<and> (\<forall>i<gtIndex maxA1 maxA2. lls ! i < maxP))"
  using assms
proof (induction n)
  case 0
  then show ?case by simp
next
  case (Suc n)
  show ?case
  proof (cases "n = 0")
    case True
    then show ?thesis by (simp add: gtSearch_def gtStep_eq gtIndex_def)
  next
    case False
    obtain maxP a1 a2 maxA1 maxA2 where s: "gtSearch lls n = (maxP, a1, a2, maxA1, maxA2)"
      by (cases "gtSearch lls n") auto
    from False have "0 < n" by simp
    from Suc.IH[OF this] s
    have ih: "a2 \<le> a1" "gtIndex a1 a2 = n" "maxA2 \<le> maxA1" "gtIndex maxA1 maxA2 < n"
      "maxP = lls ! gtIndex maxA1 maxA2" "\<forall>i<n. lls ! i \<le> maxP"
      "\<forall>i<gtIndex maxA1 maxA2. lls ! i < maxP"
      by auto
    have step: "gtSearch lls (Suc n) = gtStep lls n (maxP, a1, a2, maxA1, maxA2)"
      using s by (simp add: gtSearch_def)
    have nxt: "gtIndex (if a2 < a1 then a1 else a1 + 1) (if a2 < a1 then a2 + 1 else 0) = Suc n"
      using ih(1,2) by (auto simp: gtIndex_next_row gtIndex_next_col)
    show ?thesis
    proof (cases "lls ! n > maxP")
      case True
      with ih nxt show ?thesis
        unfolding step gtStep_eq by (auto simp: less_Suc_eq)
    next
      case False
      with ih nxt show ?thesis
        unfolding step gtStep_eq by (auto simp: less_Suc_eq)
    qed
  qed
qed

lemma LG10_value: "LG10 = 3740239490531197 / 1125899906842624"
  unfolding LG10_def by (subst dbl_eval[where e = 1]) (simp_all add: roundToEven_def)

lemma LG10_pos: "0 < LG10"
  unfolding LG10_value by simp

lemma dbl_255: "dbl 255 = 255"
  using dbl_of_int[of 255] by simp

lemma gtPL_eq:
  "gtPL maxP x = trunc (dbl (- 10 * max LL_THRESHOLD (dbl (dbl (x - maxP) / LG10))))"
  by (simp add: gtPL_def Let_def max_def)

lemma gtPL_range:
  assumes "x \<le> maxP"
  shows "0 \<le> gtPL maxP x \<and> gtPL maxP x \<le> 255"
proof -
  let ?lp = "max LL_THRESHOLD (dbl (dbl (x - maxP) / LG10))"
  from assms have "dbl (x - maxP) \<le> dbl 0" by (intro dbl_mono) simp
  then have "dbl (x - maxP) / LG10 \<le> 0" using LG10_pos by (simp add: divide_le_0_iff)
  from dbl_mono[OF this] have "dbl (dbl (x - maxP) / LG10) \<le> 0" by simp
  then have hi: "?lp \<le> 0" by (simp add: LL_THRESHOLD_def)
  have lo: "- 255 / 10 \<le> ?lp" by (simp add: LL_THRESHOLD_def)
  from hi have "0 \<le> - 10 * ?lp" by simp
  from dbl_mono[OF this] have a: "0 \<le> dbl (- 10 * ?lp)" by simp
  from lo have "- 10 * ?lp \<le> 255" by simp
  from dbl_mono[OF this] have b: "dbl (- 10 * ?lp) \<le> 255" by (simp add: dbl_255)
  from a b have "0 \<le> \<lfloor>dbl (- 10 * ?lp)\<rfloor> \<and> \<lfloor>dbl (- 10 * ?lp)\<rfloor> \<le> 255"
    by (simp add: floor_le_iff le_floor_iff)
  with a show ?thesis unfolding gtPL_eq trunc_def by simp
qed

lemma gtPL_best: "gtPL maxP maxP = 0"
  by (simp add: gtPL_eq trunc_def LL_THRESHOLD_def)

text \<open>
  Claim C3. \<^verbatim>\<open>getGtString\<close> writes the pair \<open>a2/a1\<close> whose flat index
  \<open>g = a1 * (a1 + 1) / 2 + a2\<close> is the first maximum of the negated likelihoods; every \<open>PL\<close>
  is \<open>- 10\<close> times the difference to the best divided by \<open>LG10\<close>, floored at
  \<open>LL_THRESHOLD\<close> and cut to an integer, so it lies between 0 and 255, and the \<open>PL\<close> at
  \<open>g\<close> is 0. The difference, the quotient and the product are the ones of the machine:
  each is rounded to a \<^verbatim>\<open>double\<close>.
\<close>

theorem getGtString_best_and_PL:
  assumes "lls \<noteq> []" and "ads \<noteq> []" and "vas \<noteq> []" and "2 \<le> length va_reads"
  shows "\<exists>a1 a2 pls.
      getGtString lls ads vas va_reads =
        Some (map uminus lls,
              showNat a2 @ ''/'' @ showNat a1 @ '':''
              @ commaSep (map showNat ads) @ '':''
              @ commaSep (map showNat vas) @ '':''
              @ commaSep (map showInt pls) @ '':''
              @ va_reads ! 0 @ '':'' @ va_reads ! 1)
    \<and> a2 \<le> a1 \<and> gtIndex a1 a2 < length lls
    \<and> (\<forall>i<length lls. - lls ! i \<le> - lls ! gtIndex a1 a2)
    \<and> (\<forall>i<gtIndex a1 a2. - lls ! i < - lls ! gtIndex a1 a2)
    \<and> length pls = length lls
    \<and> (\<forall>i<length lls.
          pls ! i = trunc (dbl (- 10 * max LL_THRESHOLD
                              (dbl (dbl (- lls ! i - (- lls ! gtIndex a1 a2)) / LG10))))
        \<and> 0 \<le> pls ! i \<and> pls ! i \<le> 255)
    \<and> pls ! gtIndex a1 a2 = 0"
proof -
  let ?n = "map uminus lls"
  obtain maxP a1 a2 maxA1 maxA2
    where s: "gtSearch ?n (length ?n) = (maxP, a1, a2, maxA1, maxA2)"
    by (cases "gtSearch ?n (length ?n)") auto
  from assms(1) have "0 < length ?n" by simp
  from gtSearch_inv[OF this, of ?n] s
  have inv: "maxA2 \<le> maxA1" "gtIndex maxA1 maxA2 < length lls"
    "maxP = ?n ! gtIndex maxA1 maxA2" "\<forall>i<length lls. ?n ! i \<le> maxP"
    "\<forall>i<gtIndex maxA1 maxA2. ?n ! i < maxP"
    by auto
  let ?g = "gtIndex maxA1 maxA2"
  let ?pls = "map (gtPL maxP) ?n"
  have mp: "maxP = - lls ! ?g" using inv(2,3) by simp
  have str: "getGtString lls ads vas va_reads =
        Some (?n,
              showNat maxA2 @ ''/'' @ showNat maxA1 @ '':''
              @ commaSep (map showNat ads) @ '':''
              @ commaSep (map showNat vas) @ '':''
              @ commaSep (map showInt ?pls) @ '':''
              @ va_reads ! 0 @ '':'' @ va_reads ! 1)"
    using assms s by (simp add: getGtString_def comp_def)
  have le: "\<forall>i<length lls. - lls ! i \<le> - lls ! ?g"
    using inv(4) mp by simp
  have lt: "\<forall>i<?g. - lls ! i < - lls ! ?g"
    using inv(2,5) mp by simp
  have pl: "\<forall>i<length lls.
          ?pls ! i = trunc (dbl (- 10 * max LL_THRESHOLD (dbl (dbl (- lls ! i - (- lls ! ?g)) / LG10))))
        \<and> 0 \<le> ?pls ! i \<and> ?pls ! i \<le> 255"
  proof (intro allI impI)
    fix i assume i: "i < length lls"
    then have e: "?pls ! i = gtPL maxP (- lls ! i)" by simp
    from le i have "- lls ! i \<le> maxP" unfolding mp by simp
    from gtPL_range[OF this] e
    show "?pls ! i = trunc (dbl (- 10 * max LL_THRESHOLD (dbl (dbl (- lls ! i - (- lls ! ?g)) / LG10))))
        \<and> 0 \<le> ?pls ! i \<and> ?pls ! i \<le> 255"
      by (simp add: gtPL_eq mp)
  qed
  have z: "?pls ! ?g = 0" using inv(2) mp by (simp add: gtPL_best)
  have len: "length ?pls = length lls" by simp
  from str inv(1,2) le lt len pl z show ?thesis by blast
qed

lemma upt_0_3: "[0..<3] = [0, 1, 2]"
  by (simp add: numeral_3_eq_3 upt_rec[of 0] upt_rec[of 1] upt_rec[of 2])

lemma upt_0_2: "[0..<2] = [0, 1]"
  by (simp add: numeral_2_eq_2 upt_rec[of 0] upt_rec[of 1])

lemma gtPL_ex1: "gtPL 0 (- (1168824840790999 / 140737488355328)) = 25"
proof -
  have a: "dbl (- (1168824840790999 / 140737488355328) - 0) = - (1168824840790999 / 140737488355328)"
    by (subst diff_0_right, rule dbl_exact_dyadic[where B = 4 and j = 47 and k = "- 1168824840790999"])
       simp_all
  have b: "dbl (- (1168824840790999 / 140737488355328) / LG10) = - (5 / 2)"
    unfolding LG10_value by (subst dbl_eval[where e = 1]) (simp_all add: roundToEven_def)
  have c: "dbl (- 10 * max LL_THRESHOLD (- (5 / 2))) = 25"
    using dbl_of_int[of 25] by (simp add: LL_THRESHOLD_def)
  show ?thesis unfolding gtPL_eq a b c by (simp add: trunc_def)
qed

lemma gtPL_ex2: "gtPL 0 (- (25 / 2)) = 37"
proof -
  have a: "dbl (- (25 / 2) - 0) = - (25 / 2)"
    by (subst diff_0_right, rule dbl_exact_dyadic[where B = 4 and j = 1 and k = "- 25"]) simp_all
  have b: "dbl (- (25 / 2) / LG10) = - (4236528848745575 / 1125899906842624)"
    unfolding LG10_value by (subst dbl_eval[where e = 1]) (simp_all add: roundToEven_def)
  have c: "dbl (- 10 * max LL_THRESHOLD (- (4236528848745575 / 1125899906842624)))
             = 5295661060931969 / 140737488355328"
    unfolding LL_THRESHOLD_def by (subst dbl_eval[where e = 5]) (simp_all add: roundToEven_def)
  show ?thesis unfolding gtPL_eq a b c by (simp add: trunc_def)
qed

text \<open>
  Three genotypes of two alleles, with the likelihoods \<open>0\<close>, \<open>0x1.09c28f5c28f5cp+3\<close> (a
  \<^verbatim>\<open>double\<close> just below \<open>8.305\<close>) and \<open>12.5\<close>: the first is the best, the genotype \<open>0/0\<close>, and the
  \<open>PL\<close> values are 0, 25 and 37. The quotient of the second likelihood by \<open>LG10\<close> rounds to
  \<open>2.5\<close>.
\<close>

theorem getGtString_best_and_PL_witness:
  "[0, 1168824840790999 / 140737488355328, 25 / 2 :: real] \<noteq> [] \<and> [4, 6, 10 :: nat] \<noteq> []
   \<and> [3, 7, 10 :: nat] \<noteq> [] \<and> 2 \<le> length ['''', '',r1,r2'', '''']
   \<and> getGtString [0, 1168824840790999 / 140737488355328, 25 / 2] [4, 6, 10] [3, 7, 10]
         ['''', '',r1,r2'', '''']
       = Some ([0, - (1168824840790999 / 140737488355328), - (25 / 2)],
               ''0/0:4,6,10:3,7,10:0,25,37::,r1,r2'')
   \<and> (\<exists>a1 a2 pls.
         getGtString [0, 1168824840790999 / 140737488355328, 25 / 2] [4, 6, 10] [3, 7, 10]
           ['''', '',r1,r2'', '''']
         = Some (map uminus [0, 1168824840790999 / 140737488355328, 25 / 2],
              showNat a2 @ ''/'' @ showNat a1 @ '':''
              @ commaSep (map showNat [4, 6, 10]) @ '':''
              @ commaSep (map showNat [3, 7, 10]) @ '':''
              @ commaSep (map showInt pls) @ '':''
              @ ['''', '',r1,r2'', ''''] ! 0 @ '':'' @ ['''', '',r1,r2'', ''''] ! 1)
       \<and> a2 \<le> a1 \<and> pls ! gtIndex a1 a2 = 0
       \<and> (\<forall>i<3. 0 \<le> pls ! i \<and> pls ! i \<le> 255))"
proof -
  let ?l = "[0, 1168824840790999 / 140737488355328, 25 / 2 :: real]"
  have h: "?l \<noteq> []" "[4, 6, 10 :: nat] \<noteq> []" "[3, 7, 10 :: nat] \<noteq> []"
    "2 \<le> length ['''', '',r1,r2'', '''']"
    by simp_all
  have s: "gtSearch (map uminus ?l) (length (map uminus ?l)) = (0, 2, 0, 0, 0)"
    by (simp add: gtSearch_def gtStep_def upt_0_3)
  have v: "getGtString ?l [4, 6, 10] [3, 7, 10] ['''', '',r1,r2'', '''']
       = Some ([0, - (1168824840790999 / 140737488355328), - (25 / 2)],
               ''0/0:4,6,10:3,7,10:0,25,37::,r1,r2'')"
    unfolding getGtString_def Let_def s
    by (simp add: gtPL_ex1 gtPL_ex2 gtPL_best showNat.simps showInt_def)
  from getGtString_best_and_PL[OF h]
  obtain a1 a2 pls where
    eq: "getGtString ?l [4, 6, 10] [3, 7, 10] ['''', '',r1,r2'', '''']
         = Some (map uminus ?l,
              showNat a2 @ ''/'' @ showNat a1 @ '':''
              @ commaSep (map showNat [4, 6, 10]) @ '':''
              @ commaSep (map showNat [3, 7, 10]) @ '':''
              @ commaSep (map showInt pls) @ '':''
              @ ['''', '',r1,r2'', ''''] ! 0 @ '':'' @ ['''', '',r1,r2'', ''''] ! 1)"
    and le: "a2 \<le> a1" and z: "pls ! gtIndex a1 a2 = 0"
    and r: "\<forall>i<length ?l. 0 \<le> pls ! i \<and> pls ! i \<le> 255"
    by blast
  from r have r3: "\<forall>i<3. 0 \<le> pls ! i \<and> pls ! i \<le> 255" by simp
  from eq le z r3 have "\<exists>a1 a2 pls.
         getGtString ?l [4, 6, 10] [3, 7, 10] ['''', '',r1,r2'', '''']
         = Some (map uminus ?l,
              showNat a2 @ ''/'' @ showNat a1 @ '':''
              @ commaSep (map showNat [4, 6, 10]) @ '':''
              @ commaSep (map showNat [3, 7, 10]) @ '':''
              @ commaSep (map showInt pls) @ '':''
              @ ['''', '',r1,r2'', ''''] ! 0 @ '':'' @ ['''', '',r1,r2'', ''''] ! 1)
       \<and> a2 \<le> a1 \<and> pls ! gtIndex a1 a2 = 0
       \<and> (\<forall>i<3. 0 \<le> pls ! i \<and> pls ! i \<le> 255)"
    by blast
  with h v show ?thesis by blast
qed

section \<open>The genotype aggregator: properties\<close>

lemma incr_length [simp]: "length (incr i xs) = length xs"
  by (simp add: incr_def)

lemma incr_nth: "j < length xs \<Longrightarrow> incr i xs ! j = (if j = i then xs ! j + 1 else xs ! j)"
  by (simp add: incr_def nth_list_update)

lemma sum_list_incr: "i < length xs \<Longrightarrow> sum_list (incr i xs) = Suc (sum_list xs)"
proof (induction xs arbitrary: i)
  case Nil
  then show ?case by simp
next
  case (Cons x xs)
  then show ?case by (cases i) (simp_all add: incr_def)
qed

lemma take_incr:
  "take n (incr i xs) = (if i < n then incr i (take n xs) else take n xs)"
proof (cases "i < n")
  case True
  then show ?thesis by (simp add: incr_def take_update_swap)
next
  case False
  then show ?thesis by (simp add: incr_def take_update_cancel)
qed

lemma apMax_index: "snd (apMax als n) < max n 1"
proof (induction n)
  case 0
  then show ?case by (simp add: apMax_def)
next
  case (Suc n)
  have "apMax als (Suc n) = apMaxStep als n (apMax als n)" by (simp add: apMax_def)
  with Suc show ?case by (auto simp: apMaxStep_def)
qed

lemma alignmentPreference_best:
  assumes "0 < nAlleles vai"
  shows "fst (alignmentPreference vai w opts pref) = NO_BEST
       \<or> fst (alignmentPreference vai w opts pref) < nAlleles vai"
proof -
  from apMax_index[of "alignS vai" "nAlleles vai"] assms
  have "snd (apMax (alignS vai) (nAlleles vai)) < nAlleles vai" by simp
  then show ?thesis
    by (auto simp: alignmentPreference_def Let_def split: prod.splits)
qed

lemma alignmentPreference_best_indep:
  "fst (alignmentPreference vai w opts pref) = fst (alignmentPreference vai w opts pref')"
  by (auto simp: alignmentPreference_def Let_def split: prod.splits)

text \<open>The \<open>AD\<close> counters after one read, under the models that run the \<open>ad\<close> scorer.\<close>

lemma adPart_counts:
  assumes "gtm = ad \<or> gtm = joint" and "0 < nAlleles vai" and "length rI = Suc (nAlleles vai)"
  shows "(case adPart gtm vai w opts (prefs, rI) of (prefs', rI') \<Rightarrow>
           length rI' = length rI
         \<and> rI' ! nAlleles vai = Suc (rI ! nAlleles vai)
         \<and> sum_list (take (nAlleles vai) rI') =
             sum_list (take (nAlleles vai) rI)
             + (if fst (alignmentPreference vai w opts prefs) = NO_BEST then 0 else 1))"
proof -
  obtain b p where ap: "alignmentPreference vai w opts prefs = (b, p)"
    by (cases "alignmentPreference vai w opts prefs")
  from alignmentPreference_best[OF assms(2), of w opts prefs] ap
  have b: "b = NO_BEST \<or> b < nAlleles vai" by simp
  show ?thesis
  proof (cases "b = NO_BEST")
    case True
    with assms ap show ?thesis
      by (simp add: adPart_def incr_nth take_incr)
  next
    case False
    with b have bl: "b < nAlleles vai" by simp
    with assms ap False show ?thesis
      by (simp add: adPart_def incr_nth take_incr sum_list_incr)
  qed
qed

lemma adPart_other:
  "\<not> (gtm = ad \<or> gtm = joint) \<Longrightarrow> adPart gtm vai w opts s = s"
  by (simp add: adPart_def split: prod.splits)

lemma scoreRead_rI:
  "fst (snd (scoreRead gtm vai w opts refLen altLens (rI, VAs, Q))) =
     snd (adPart gtm vai w opts (replicate (length altLens + 1) 0, rI))"
  by (simp add: scoreRead_def Let_def split: prod.splits)

lemma readStep_counters:
  "snd (readStep gtm w opts refLen altLens vai (vC, rI, VAs, Q)) =
     snd (scoreRead gtm vai w opts refLen altLens (rI, VAs, Q))"
  by (simp add: readStep_def split: prod.splits)

lemma readStep_rI:
  "fst (snd (readStep gtm w opts refLen altLens vai (vC, rI, VAs, Q))) =
     snd (adPart gtm vai w opts (replicate (length altLens + 1) 0, rI))"
  by (simp only: readStep_counters scoreRead_rI)

lemma fold_readStep_counts:
  assumes "gtm = ad \<or> gtm = joint" and "0 < n" and "length altLens + 1 = n"
    and "\<forall>vai\<in>set vais. nAlleles vai = n" and "length rI = Suc n"
  shows "(case fold (readStep gtm w opts refLen altLens) vais (vC, rI, VAs, Q) of
            (vC', rI', VAs', Q') \<Rightarrow>
              length rI' = Suc n
            \<and> rI' ! n = rI ! n + length vais
            \<and> sum_list (take n rI') + noBestCount w opts n vais
                = sum_list (take n rI) + length vais)"
  using assms(4,5)
proof (induction vais arbitrary: vC rI VAs Q)
  case Nil
  then show ?case by (simp add: noBestCount_def)
next
  case (Cons vai vais)
  obtain vC1 rI1 VAs1 Q1
    where st: "readStep gtm w opts refLen altLens vai (vC, rI, VAs, Q) = (vC1, rI1, VAs1, Q1)"
    by (cases "readStep gtm w opts refLen altLens vai (vC, rI, VAs, Q)") auto
  from Cons.prems have na: "nAlleles vai = n" and rest: "\<forall>v\<in>set vais. nAlleles v = n" by simp_all
  have r1: "rI1 = snd (adPart gtm vai w opts (replicate n 0, rI))"
    using readStep_rI[of gtm w opts refLen altLens vai vC rI VAs Q]
    unfolding st assms(3) by simp
  from adPart_counts[OF assms(1), of vai rI w opts "replicate n 0"] na assms(2) Cons.prems(2)
  have one: "length rI1 = Suc n" "rI1 ! n = Suc (rI ! n)"
    "sum_list (take n rI1) = sum_list (take n rI)
       + (if fst (alignmentPreference vai w opts (replicate n 0)) = NO_BEST then 0 else 1)"
    unfolding r1 by (auto split: prod.splits)
  from Cons.IH[OF rest one(1), of vC1 VAs1 Q1] one(2,3) st
  show ?case by (auto simp: noBestCount_def split: prod.splits)
qed

text \<open>
  Claim C6. Under the models \<open>ad\<close> and \<open>joint\<close>, when all reads of a variant are processed,
  the total counter \<open>AD[nAlleles]\<close> is the number of candidate reads, that is the sum of the
  per-allele counters plus the number of reads without a best allele: the total is
  incremented for every read, a per-allele counter only when a best allele is reported.
\<close>

theorem multiUpdateVC_AD_total:
  assumes "gtm = ad \<or> gtm = joint"
    and "n = length (strSplit CHR '','' (v_alt var)) + 1"
    and "\<forall>vai\<in>set vais. nAlleles vai = n"
    and "rI = replicate (n + 1) 0"
  shows "(case multiUpdateVC var vais vC rI VAs VA_qnames w opts gtm of
            (vC', AD, VAs', VA_qnames') \<Rightarrow>
              length AD = n + 1
            \<and> AD ! n = length vais
            \<and> AD ! n = sum_list (take n AD) + noBestCount w opts n vais)"
proof -
  let ?altLens = "map length (strSplit CHR '','' (v_alt var))"
  have n0: "0 < n" using assms(2) by simp
  have al: "length ?altLens + 1 = n" using assms(2) by simp
  have len: "length rI = Suc n" using assms(4) by simp
  have z1: "rI ! n = 0" unfolding assms(4) by (rule nth_replicate) simp
  have "\<forall>x\<in>set (take n rI). x = 0" unfolding assms(4) by (auto dest: in_set_takeD)
  then have z2: "sum_list (take n rI) = 0" by simp
  note z = z1 z2
  from fold_readStep_counts[OF assms(1) n0 al assms(3) len,
         of w opts "length (v_ref var)" vC VAs VA_qnames] z
  show ?thesis
    by (auto simp: multiUpdateVC_def split: prod.splits)
qed

text \<open>
  Two reads under \<open>joint\<close>, the second without an alignment above the threshold: the total
  is 2, one read is counted for the alternate allele, one has no best allele.
\<close>

lemma minAlignScoreOf_10: "minAlignScoreOf 10 = 12"
proof -
  have "minAlignScoreOf 10 = \<lfloor>12 / 10 * real 10\<rfloor>" by (rule minAlignScoreOf_floor) simp
  then show ?thesis by simp
qed

theorem multiUpdateVC_AD_total_witness:
  "(case multiUpdateVC exVar [exVai, exVai\<lparr>alignS := [5, 7]\<rparr>] [0, 0, 0] [0, 0, 0] [0, 0, 0]
           ['''', '''', ''''] 10 exOptions joint of
      (vC', AD, VAs', VA_qnames') \<Rightarrow>
        length AD = 3 \<and> AD ! 2 = 2
      \<and> AD ! 2 = sum_list (take 2 AD) + noBestCount 10 exOptions 2 [exVai, exVai\<lparr>alignS := [5, 7]\<rparr>])
   \<and> noBestCount 10 exOptions 2 [exVai, exVai\<lparr>alignS := [5, 7]\<rparr>] = 1"
proof -
  have h: "joint = ad \<or> joint = joint" "2 = length (strSplit CHR '','' (v_alt exVar)) + 1"
    "\<forall>vai\<in>set [exVai, exVai\<lparr>alignS := [5, 7]\<rparr>]. nAlleles vai = 2"
    "[0, 0, 0] = replicate (2 + 1) (0::nat)"
    by (simp_all add: exVar_def exVai_def numeral_3_eq_3)
  have nb: "noBestCount 10 exOptions 2 [exVai, exVai\<lparr>alignS := [5, 7]\<rparr>] = 1"
  proof -
    have u: "[0..<2] = [0, Suc 0]" by (simp add: numeral_2_eq_2)
    show ?thesis
      by (simp add: noBestCount_def alignmentPreference_def apMax_def apMaxStep_def exVai_def
            trunc_def NO_ALIGNMENT_def NO_BEST_def u minAlignScoreOf_10)
  qed
  from multiUpdateVC_AD_total[OF h, where vC = "[0, 0, 0]" and VAs = "[0, 0, 0]"
         and VA_qnames = "['''', '''', '''']" and w = 10 and opts = exOptions] nb
  show ?thesis by (simp split: prod.splits)
qed

subsection \<open>The genotype loops\<close>

lemma pairUpdate_eq:
  "pairUpdate prefs a1 a2 (vC, vCI) =
     (if a1 \<noteq> a2 \<and> prefs ! a1 \<noteq> prefs ! a2 \<and> \<not> prefs ! a1 > prefs ! a2 + 2
         \<and> \<not> prefs ! a2 > prefs ! a1 + 2 \<and> \<not> prefs ! a1 > prefs ! a2
      then vC else vC[vCI := vC ! vCI + contribution prefs a1 a2], vCI + 1)"
  by (simp add: pairUpdate_def contribution_def)

lemma pairUpdate_nth:
  "j < length vC \<Longrightarrow>
   fst (pairUpdate prefs a1 a2 (vC, vCI)) ! j =
     (if j = vCI then vC ! j + contribution prefs a1 a2 else vC ! j)"
  by (auto simp: pairUpdate_eq contribution_def)

lemma pairUpdate_length: "length (fst (pairUpdate prefs a1 a2 (vC, vCI))) = length vC"
  by (simp add: pairUpdate_eq)

lemma pairUpdate_snd: "snd (pairUpdate prefs a1 a2 (vC, vCI)) = vCI + 1"
  by (simp add: pairUpdate_eq)

lemma inner_loop:
  "(case fold (pairUpdate prefs a1) [0..<k] (vC, c) of (vC', c') \<Rightarrow>
      c' = c + k \<and> length vC' = length vC
    \<and> (\<forall>j<length vC. vC' ! j =
          (if c \<le> j \<and> j < c + k then vC ! j + contribution prefs a1 (j - c) else vC ! j)))"
proof (induction k)
  case 0
  then show ?case by simp
next
  case (Suc k)
  obtain vC1 c1 where s: "fold (pairUpdate prefs a1) [0..<k] (vC, c) = (vC1, c1)"
    by (cases "fold (pairUpdate prefs a1) [0..<k] (vC, c)")
  from Suc s have ih: "c1 = c + k" "length vC1 = length vC"
    "\<forall>j<length vC. vC1 ! j =
          (if c \<le> j \<and> j < c + k then vC ! j + contribution prefs a1 (j - c) else vC ! j)"
    by auto
  have step: "fold (pairUpdate prefs a1) [0..<Suc k] (vC, c) = pairUpdate prefs a1 k (vC1, c1)"
    using s by simp
  obtain vC2 c2 where t: "pairUpdate prefs a1 k (vC1, c1) = (vC2, c2)"
    by (cases "pairUpdate prefs a1 k (vC1, c1)")
  from pairUpdate_snd[of prefs a1 k vC1 c1] t ih(1) have c2: "c2 = c + Suc k" by simp
  from pairUpdate_length[of prefs a1 k vC1 c1] t ih(2) have l2: "length vC2 = length vC" by simp
  have n2: "\<forall>j<length vC. vC2 ! j =
          (if c \<le> j \<and> j < c + Suc k then vC ! j + contribution prefs a1 (j - c) else vC ! j)"
  proof (intro allI impI)
    fix j assume j: "j < length vC"
    with ih(2) have "j < length vC1" by simp
    from pairUpdate_nth[OF this, where prefs = prefs and ?a1.0 = a1 and ?a2.0 = k and vCI = c1] t
    have "vC2 ! j = (if j = c1 then vC1 ! j + contribution prefs a1 k else vC1 ! j)" by simp
    with ih(1,3) j
    show "vC2 ! j =
          (if c \<le> j \<and> j < c + Suc k then vC ! j + contribution prefs a1 (j - c) else vC ! j)"
      by auto
  qed
  show ?case unfolding step t using c2 l2 n2 by simp
qed

lemma gtIndex_row: "gtIndex a b = gtIndex a 0 + b"
  by (simp add: gtIndex_def)

lemma gtIndex_row_mono: "a \<le> b \<Longrightarrow> gtIndex a 0 \<le> gtIndex b 0"
  unfolding gtIndex_def by (intro add_mono div_le_mono mult_le_mono) simp_all

lemma gtIndex_below_row:
  assumes "a2 \<le> a1" and "a1 < n"
  shows "gtIndex a1 a2 < gtIndex n 0"
proof -
  have "gtIndex a1 a2 \<le> gtIndex a1 a1" using assms(1) by (simp add: gtIndex_def)
  also have "\<dots> < gtIndex (Suc a1) 0" by (simp add: gtIndex_next_row)
  also have "\<dots> \<le> gtIndex n 0" using assms(2) by (intro gtIndex_row_mono) simp
  finally show ?thesis .
qed

lemma pairLoops_inv:
  "(case pairLoops prefs n (vC, 0) of (vC', c') \<Rightarrow>
      c' = gtIndex n 0 \<and> length vC' = length vC
    \<and> (\<forall>a1<n. \<forall>a2\<le>a1. gtIndex a1 a2 < length vC \<longrightarrow>
          vC' ! gtIndex a1 a2 = vC ! gtIndex a1 a2 + contribution prefs a1 a2)
    \<and> (\<forall>j<length vC. gtIndex n 0 \<le> j \<longrightarrow> vC' ! j = vC ! j))"
proof (induction n)
  case 0
  then show ?case by (simp add: pairLoops_def gtIndex_def)
next
  case (Suc n)
  obtain vC1 c1 where s: "pairLoops prefs n (vC, 0) = (vC1, c1)"
    by (cases "pairLoops prefs n (vC, 0)")
  from Suc s have ih: "c1 = gtIndex n 0" "length vC1 = length vC"
    "\<forall>a1<n. \<forall>a2\<le>a1. gtIndex a1 a2 < length vC \<longrightarrow>
          vC1 ! gtIndex a1 a2 = vC ! gtIndex a1 a2 + contribution prefs a1 a2"
    "\<forall>j<length vC. gtIndex n 0 \<le> j \<longrightarrow> vC1 ! j = vC ! j"
    by auto
  have step: "pairLoops prefs (Suc n) (vC, 0) = fold (pairUpdate prefs n) [0..<n + 1] (vC1, c1)"
    using s by (simp add: pairLoops_def)
  obtain vC2 c2 where t: "fold (pairUpdate prefs n) [0..<n + 1] (vC1, c1) = (vC2, c2)"
    by (cases "fold (pairUpdate prefs n) [0..<n + 1] (vC1, c1)")
  from inner_loop[where prefs = prefs and ?a1.0 = n and k = "n + 1" and vC = vC1 and c = c1]
       t ih(1,2)
  have inn: "c2 = gtIndex n 0 + (n + 1)" "length vC2 = length vC"
    "\<forall>j<length vC. vC2 ! j =
       (if gtIndex n 0 \<le> j \<and> j < gtIndex n 0 + (n + 1)
        then vC1 ! j + contribution prefs n (j - gtIndex n 0) else vC1 ! j)"
    by auto
  have nr: "gtIndex (Suc n) 0 = gtIndex n 0 + (n + 1)"
    by (simp add: gtIndex_next_row gtIndex_row[of n n])
  have a: "\<forall>a1<Suc n. \<forall>a2\<le>a1. gtIndex a1 a2 < length vC \<longrightarrow>
          vC2 ! gtIndex a1 a2 = vC ! gtIndex a1 a2 + contribution prefs a1 a2"
  proof (intro allI impI)
    fix a1 a2 assume h: "a1 < Suc n" "a2 \<le> a1" "gtIndex a1 a2 < length vC"
    show "vC2 ! gtIndex a1 a2 = vC ! gtIndex a1 a2 + contribution prefs a1 a2"
    proof (cases "a1 < n")
      case True
      from gtIndex_below_row[OF h(2) True] have "\<not> gtIndex n 0 \<le> gtIndex a1 a2" by simp
      with inn(3) h(3) have "vC2 ! gtIndex a1 a2 = vC1 ! gtIndex a1 a2" by simp
      with ih(3) True h(2,3) show ?thesis by simp
    next
      case False
      with h(1) have e: "a1 = n" by simp
      have g: "gtIndex n a2 = gtIndex n 0 + a2" by (rule gtIndex_row)
      from h(2) e have "gtIndex n 0 \<le> gtIndex n a2 \<and> gtIndex n a2 < gtIndex n 0 + (n + 1)"
        unfolding g by simp
      with inn(3) h(3) e
      have "vC2 ! gtIndex n a2 = vC1 ! gtIndex n a2 + contribution prefs n (gtIndex n a2 - gtIndex n 0)"
        by simp
      moreover have "vC1 ! gtIndex n a2 = vC ! gtIndex n a2"
      proof -
        have "gtIndex n a2 < length vC" using h(3) e by simp
        moreover have "gtIndex n 0 \<le> gtIndex n a2" unfolding g by simp
        ultimately show ?thesis using ih(4) by blast
      qed
      ultimately show ?thesis using e by (simp add: g)
    qed
  qed
  have b: "\<forall>j<length vC. gtIndex (Suc n) 0 \<le> j \<longrightarrow> vC2 ! j = vC ! j"
    using inn(3) ih(4) unfolding nr by simp
  show ?case unfolding step t using inn(1,2) nr a b by simp
qed

subsection \<open>The preference vector of a read\<close>

lemma fst_adPart:
  "fst (adPart gtm vai w opts (prefs, rI)) =
     (if gtm = ad \<or> gtm = joint then snd (alignmentPreference vai w opts prefs) else prefs)"
  by (simp add: adPart_def Let_def split: prod.splits)

lemma fst_vaPart:
  "fst (vaPart gtm vai opts refLen altLens (prefs, VAs, Q)) =
     (if gtm = va \<or> gtm = joint then snd (vaPreference vai opts refLen altLens prefs) else prefs)"
  by (simp add: vaPart_def Let_def split: prod.splits)

lemma fst_vaOldPart:
  "fst (vaOldPart gtm vai opts refLen altLens (prefs, VAs)) =
     (if gtm = va_old
      then fst (fold (vaOldStep vai opts refLen altLens) [0..<length altLens] (prefs, 0, 0))
      else prefs)"
  by (simp add: vaOldPart_def Let_def split: prod.splits)

lemma fst_scoreRead:
  "fst (scoreRead gtm vai w opts refLen altLens (rI, VAs, Q)) =
     presencePart gtm vai opts (length altLens)
       (fst (vaOldPart gtm vai opts refLen altLens
         (fst (vaPart gtm vai opts refLen altLens
           (fst (adPart gtm vai w opts (replicate (length altLens + 1) 0, [])), [], [])), [])))"
proof -
  obtain p1 r1 where a: "adPart gtm vai w opts (replicate (length altLens + 1) 0, rI) = (p1, r1)"
    by (cases "adPart gtm vai w opts (replicate (length altLens + 1) 0, rI)")
  obtain p2 v2 q2 where b: "vaPart gtm vai opts refLen altLens (p1, VAs, Q) = (p2, v2, q2)"
    by (cases "vaPart gtm vai opts refLen altLens (p1, VAs, Q)") auto
  obtain p3 v3 where c: "vaOldPart gtm vai opts refLen altLens (p2, v2) = (p3, v3)"
    by (cases "vaOldPart gtm vai opts refLen altLens (p2, v2)")
  have a': "fst (adPart gtm vai w opts (replicate (length altLens + 1) 0, [])) = p1"
    using a fst_adPart[of gtm vai w opts "replicate (length altLens + 1) 0" rI]
    by (simp only: fst_adPart fst_conv)
  have b': "fst (vaPart gtm vai opts refLen altLens (p1, [], [])) = p2"
    using b fst_vaPart[of gtm vai opts refLen altLens p1 VAs Q]
    by (simp only: fst_vaPart fst_conv)
  have c': "fst (vaOldPart gtm vai opts refLen altLens (p2, [])) = p3"
    using c fst_vaOldPart[of gtm vai opts refLen altLens p2 v2]
    by (simp only: fst_vaOldPart fst_conv)
  have "fst (scoreRead gtm vai w opts refLen altLens (rI, VAs, Q)) =
          presencePart gtm vai opts (length altLens) p3"
    unfolding scoreRead_def by (simp only: prod.case Let_def a b c fst_conv)
  then show ?thesis by (simp only: a' b' c')
qed

lemma scoreRead_prefs:
  "fst (scoreRead gtm vai w opts refLen altLens (rI, VAs, Q)) = readPrefs gtm vai w opts refLen altLens"
  unfolding readPrefs_def by (simp only: fst_scoreRead)

lemma alignmentPreference_length:
  "length (snd (alignmentPreference vai w opts pref)) = length pref"
  by (simp add: alignmentPreference_def Let_def apUpdate_length split: prod.splits)

lemma vaPreference_length:
  "length (snd (vaPreference vai opts refLen altLens pref)) = length pref"
  by (simp add: vaPreference_def Let_def addExcept_length)

lemma vaOld_fold_length:
  "length (fst (fold (vaOldStep vai opts refLen altLens) [0..<k] (prefs, b, s))) = length prefs"
proof (induction k)
  case 0
  then show ?case by simp
next
  case (Suc k)
  obtain p b' s' where f: "fold (vaOldStep vai opts refLen altLens) [0..<k] (prefs, b, s) = (p, b', s')"
    by (cases "fold (vaOldStep vai opts refLen altLens) [0..<k] (prefs, b, s)") auto
  with Suc have l: "length p = length prefs" by simp
  have "fold (vaOldStep vai opts refLen altLens) [0..<Suc k] (prefs, b, s)
          = vaOldStep vai opts refLen altLens k (p, b', s')"
    using f by simp
  moreover have "length (fst (vaOldStep vai opts refLen altLens k (p, b', s'))) = length p"
    by (simp add: vaOldStep_def Let_def)
  ultimately show ?case using l by simp
qed

lemma presence_fold_length:
  "length (fold (\<lambda>iP p. p[iP := p ! iP + b]) xs prefs) = length prefs"
  by (induction xs arbitrary: prefs) simp_all

lemma presencePart_length: "length (presencePart gtm vai opts nAlts prefs) = length prefs"
  by (simp add: presencePart_def Let_def presence_fold_length)

lemma readPrefs_length: "length (readPrefs gtm vai w opts refLen altLens) = length altLens + 1"
  unfolding readPrefs_def fst_scoreRead
  by (simp add: presencePart_length fst_vaOldPart fst_vaPart fst_adPart vaOld_fold_length
        vaPreference_length alignmentPreference_length)

lemma normalise_length: "length (normalise prefs n m) = length prefs"
  by (induction n) (simp_all add: normalise_def)

lemma normalise_nth:
  "j < length prefs \<Longrightarrow>
     normalise prefs n m ! j = (if j < n then dbl (prefs ! j - m) else prefs ! j)"
proof (induction n)
  case 0
  then show ?case by (simp add: normalise_def)
next
  case (Suc n)
  have "normalise prefs (Suc n) m = (normalise prefs n m)[n := dbl (normalise prefs n m ! n - m)]"
    by (simp add: normalise_def)
  with Suc normalise_length[of prefs n m] show ?case
    by (auto simp: nth_list_update less_Suc_eq)
qed

lemma aggregateRead_nth:
  assumes "a2 \<le> a1" and "a1 \<le> nAlts" and "gtIndex a1 a2 < length vC"
  shows "aggregateRead nAlts prefs vC ! gtIndex a1 a2 =
     (if sgl (maxPref prefs (nAlts + 1) - minPref prefs (nAlts + 1)) > MINIMUM_PREF_DIFF
      then vC ! gtIndex a1 a2
           + contribution (normalise prefs (nAlts + 1) (minPref prefs (nAlts + 1))) a1 a2
      else vC ! gtIndex a1 a2)"
proof -
  let ?p = "normalise prefs (nAlts + 1) (minPref prefs (nAlts + 1))"
  obtain vC' c' where s: "pairLoops ?p (nAlts + 1) (vC, 0) = (vC', c')"
    by (cases "pairLoops ?p (nAlts + 1) (vC, 0)")
  from pairLoops_inv[where prefs = ?p and n = "nAlts + 1" and vC = vC] s
  have "\<forall>a1<nAlts + 1. \<forall>a2\<le>a1. gtIndex a1 a2 < length vC \<longrightarrow>
          vC' ! gtIndex a1 a2 = vC ! gtIndex a1 a2 + contribution ?p a1 a2"
    by simp
  with assms have "vC' ! gtIndex a1 a2 = vC ! gtIndex a1 a2 + contribution ?p a1 a2" by simp
  then show ?thesis using s by (simp add: aggregateRead_def Let_def)
qed

text \<open>
  Claim C10. For a read and a heterozygous genotype \<open>(a1, a2)\<close>, \<open>a2 < a1\<close>, whose normalised
  preferences satisfy \<open>0 < prefs[a2] - prefs[a1] \<le> 2\<close>, the loop body of \<^verbatim>\<open>multiUpdateVC\<close>
  leaves \<open>vC[g]\<close> at the flat index \<open>g\<close> of the genotype as it is: no branch of the
  contribution table applies. This holds for a read that passes the informativeness test, and
  trivially for one that does not.
\<close>

theorem readStep_het_within_two:
  assumes "length vC = gtIndex (length altLens + 1) 0"
    and "a2 < a1" and "a1 \<le> length altLens"
    and "prefs = normalise (readPrefs gtm vai w opts refLen altLens) (length altLens + 1)
                   (minPref (readPrefs gtm vai w opts refLen altLens) (length altLens + 1))"
    and "0 < prefs ! a2 - prefs ! a1" and "prefs ! a2 - prefs ! a1 \<le> 2"
  shows "fst (readStep gtm w opts refLen altLens vai (vC, rI, VAs, VA_qnames)) ! gtIndex a1 a2
           = vC ! gtIndex a1 a2"
proof -
  let ?rp = "readPrefs gtm vai w opts refLen altLens"
  have le: "a2 \<le> a1" using assms(2) by simp
  have "a1 < length altLens + 1" using assms(3) by simp
  from gtIndex_below_row[OF le this] assms(1) have g: "gtIndex a1 a2 < length vC" by simp
  have c: "contribution prefs a1 a2 = 0"
    using assms(2,5,6) by (simp add: contribution_def)
  obtain p r v q
    where sc: "scoreRead gtm vai w opts refLen altLens (rI, VAs, VA_qnames) = (p, r, v, q)"
    by (cases "scoreRead gtm vai w opts refLen altLens (rI, VAs, VA_qnames)") auto
  from scoreRead_prefs[of gtm vai w opts refLen altLens rI VAs VA_qnames] sc
  have "p = ?rp" by simp
  with sc have "fst (readStep gtm w opts refLen altLens vai (vC, rI, VAs, VA_qnames))
          = aggregateRead (length altLens) ?rp vC"
    by (simp add: readStep_def)
  then show ?thesis
    using aggregateRead_nth[OF le assms(3) g, of ?rp] c assms(4) by simp
qed

lemma exVai3_prefs: "readPrefs ad exVai3 10 exOptions 1 [9, 2] = [1, 0, 5]"
  by (simp add: readPrefs_def scoreRead_def adPart_def vaPart_def vaOldPart_def presencePart_def
        alignmentPreference_def apMax_def apMaxStep_def apUpdate_def apPenalty_def
        exVai3_def exOptions_def trunc_def NO_ALIGNMENT_def NO_BEST_def incr_def upt_0_3
        minAlignScoreOf_10 round_small)

lemma exVai3_normalised:
  "normalise [1, 0, 5] 3 (minPref [1, 0, 5] 3) = [1, 0, 5]"
  by (simp add: normalise_def minPref_def FLT_MAX_def upt_0_3 round_small)

text \<open>
  A read with the preferences \<open>[1, 0, 5]\<close> is informative; the genotype \<open>(1, 0)\<close> has
  \<open>prefs[0] - prefs[1] = 1\<close>, and its entry \<open>vC[1]\<close> stays as it is.
\<close>

theorem readStep_het_within_two_witness:
  "readPrefs ad exVai3 10 exOptions 1 [9, 2] = [1, 0, 5]
   \<and> sgl (maxPref [1, 0, 5] 3 - minPref [1, 0, 5] 3) > MINIMUM_PREF_DIFF
   \<and> fst (readStep ad 10 exOptions 1 [9, 2] exVai3
            ([0, 0, 0, 0, 0, 0], [0, 0, 0, 0], [0, 0, 0, 0], ['''', '''', '''', ''''])) ! gtIndex 1 0
       = [0, 0, 0, 0, 0, 0] ! gtIndex 1 0"
proof -
  let ?prefs = "normalise (readPrefs ad exVai3 10 exOptions 1 [9, 2]) (length [9, 2 :: nat] + 1)
                   (minPref (readPrefs ad exVai3 10 exOptions 1 [9, 2]) (length [9, 2 :: nat] + 1))"
  have l3: "length [9, 2 :: nat] + 1 = 3" by simp
  have n: "?prefs = [1, 0, 5]"
    unfolding exVai3_prefs l3 by (rule exVai3_normalised)
  have h: "length [0, 0, 0, 0, 0, 0 :: real] = gtIndex (length [9, 2 :: nat] + 1) 0"
    "(0::nat) < 1" "1 \<le> length [9, 2 :: nat]" "?prefs = ?prefs"
    "0 < ?prefs ! 0 - ?prefs ! 1" "?prefs ! 0 - ?prefs ! 1 \<le> 2"
    unfolding n by (simp_all add: gtIndex_def)
  have sp: "sgl (maxPref [1, 0, 5] 3 - minPref [1, 0, 5] 3) > MINIMUM_PREF_DIFF"
    by (simp add: maxPref_def minPref_def FLT_MAX_def FLT_LOWEST_def MINIMUM_PREF_DIFF_def upt_0_3
          round_small)
  from readStep_het_within_two[OF h, where rI = "[0, 0, 0, 0]" and VAs = "[0, 0, 0, 0]"
         and VA_qnames = "['''', '''', '''', '''']"] exVai3_prefs sp
  show ?thesis by simp
qed

subsection \<open>Uninformative reads\<close>

lemma sgl_FLT_MAX: "sgl FLT_MAX = FLT_MAX"
  unfolding FLT_MAX_def by (subst sgl_eval[where e = 127]) simp_all

lemma sgl_FLT_LOWEST: "sgl FLT_LOWEST = FLT_LOWEST"
  by (simp add: FLT_LOWEST_def sgl_minus sgl_FLT_MAX)

lemma sgl_2: "sgl 2 = 2"
  by (simp add: round_small)

text \<open>
  The \<^verbatim>\<open>float\<close> variable \<open>minPref\<close> after the loop is the least of the preferences, rounded
  to \<^verbatim>\<open>float\<close>; \<open>maxPref\<close> is the greatest one, rounded.
\<close>

lemma minPref_fold:
  assumes "k \<le> length prefs" and "sgl M = M"
  shows "fold (\<lambda>iP m. if prefs ! iP < m then sgl (prefs ! iP) else m) [0..<k] M
           = Min (insert M (sgl ` set (take k prefs)))"
  using assms(1)
proof (induction k)
  case 0
  then show ?case by simp
next
  case (Suc k)
  then have k: "k < length prefs" by simp
  define Mk where "Mk = Min (insert M (sgl ` set (take k prefs)))"
  have "Mk \<in> insert M (sgl ` set (take k prefs))" unfolding Mk_def by (rule Min_in) simp_all
  then have fx: "sgl Mk = Mk" using assms(2) by auto
  have t: "set (take (Suc k) prefs) = insert (prefs ! k) (set (take k prefs))"
    using k by (simp add: take_Suc_conv_app_nth)
  have "insert M (sgl ` set (take (Suc k) prefs))
          = insert (sgl (prefs ! k)) (insert M (sgl ` set (take k prefs)))"
    unfolding t by auto
  moreover have "Min (insert (sgl (prefs ! k)) (insert M (sgl ` set (take k prefs))))
          = min (sgl (prefs ! k)) Mk"
    unfolding Mk_def by (rule Min_insert) simp_all
  ultimately have m: "Min (insert M (sgl ` set (take (Suc k) prefs))) = min (sgl (prefs ! k)) Mk"
    by simp
  have ih: "fold (\<lambda>iP m. if prefs ! iP < m then sgl (prefs ! iP) else m) [0..<k] M = Mk"
    using Suc by (simp add: Mk_def)
  have "fold (\<lambda>iP m. if prefs ! iP < m then sgl (prefs ! iP) else m) [0..<Suc k] M
          = (if prefs ! k < Mk then sgl (prefs ! k) else Mk)"
    using ih by simp
  also have "\<dots> = min (sgl (prefs ! k)) Mk"
  proof (cases "prefs ! k < Mk")
    case True
    then have "sgl (prefs ! k) \<le> sgl Mk" by (intro sgl_mono) simp
    with True fx show ?thesis by (simp add: min_def)
  next
    case False
    then have "sgl Mk \<le> sgl (prefs ! k)" by (intro sgl_mono) simp
    with False fx show ?thesis by (simp add: min_def)
  qed
  finally show ?case unfolding m .
qed

lemma maxPref_fold:
  assumes "k \<le> length prefs" and "sgl M = M"
  shows "fold (\<lambda>iP m. if prefs ! iP > m then sgl (prefs ! iP) else m) [0..<k] M
           = Max (insert M (sgl ` set (take k prefs)))"
  using assms(1)
proof (induction k)
  case 0
  then show ?case by simp
next
  case (Suc k)
  then have k: "k < length prefs" by simp
  define Mk where "Mk = Max (insert M (sgl ` set (take k prefs)))"
  have "Mk \<in> insert M (sgl ` set (take k prefs))" unfolding Mk_def by (rule Max_in) simp_all
  then have fx: "sgl Mk = Mk" using assms(2) by auto
  have t: "set (take (Suc k) prefs) = insert (prefs ! k) (set (take k prefs))"
    using k by (simp add: take_Suc_conv_app_nth)
  have "insert M (sgl ` set (take (Suc k) prefs))
          = insert (sgl (prefs ! k)) (insert M (sgl ` set (take k prefs)))"
    unfolding t by auto
  moreover have "Max (insert (sgl (prefs ! k)) (insert M (sgl ` set (take k prefs))))
          = max (sgl (prefs ! k)) Mk"
    unfolding Mk_def by (rule Max_insert) simp_all
  ultimately have m: "Max (insert M (sgl ` set (take (Suc k) prefs))) = max (sgl (prefs ! k)) Mk"
    by simp
  have ih: "fold (\<lambda>iP m. if prefs ! iP > m then sgl (prefs ! iP) else m) [0..<k] M = Mk"
    using Suc by (simp add: Mk_def)
  have "fold (\<lambda>iP m. if prefs ! iP > m then sgl (prefs ! iP) else m) [0..<Suc k] M
          = (if prefs ! k > Mk then sgl (prefs ! k) else Mk)"
    using ih by simp
  also have "\<dots> = max (sgl (prefs ! k)) Mk"
  proof (cases "prefs ! k > Mk")
    case True
    then have "sgl Mk \<le> sgl (prefs ! k)" by (intro sgl_mono) simp
    with True fx show ?thesis by (simp add: max_def)
  next
    case False
    then have "sgl (prefs ! k) \<le> sgl Mk" by (intro sgl_mono) simp
    with False fx show ?thesis by (simp add: max_def)
  qed
  finally show ?case unfolding m .
qed

lemma sgl_Min: "finite A \<Longrightarrow> A \<noteq> {} \<Longrightarrow> Min (sgl ` A) = sgl (Min A)"
  by (rule mono_Min_commute[symmetric]) (simp_all add: monoI sgl_mono)

lemma sgl_Max: "finite A \<Longrightarrow> A \<noteq> {} \<Longrightarrow> Max (sgl ` A) = sgl (Max A)"
  by (rule mono_Max_commute[symmetric]) (simp_all add: monoI sgl_mono)

lemma minPref_Min:
  assumes "prefs \<noteq> []" and "\<forall>p\<in>set prefs. p \<le> FLT_MAX"
  shows "minPref prefs (length prefs) = sgl (Min (set prefs))"
proof -
  have "minPref prefs (length prefs) = Min (insert FLT_MAX (sgl ` set prefs))"
    unfolding minPref_def using minPref_fold[OF order_refl sgl_FLT_MAX, of prefs] by simp
  also have "\<dots> = min FLT_MAX (Min (sgl ` set prefs))" using assms(1) by simp
  also have "Min (sgl ` set prefs) = sgl (Min (set prefs))" using assms(1) by (intro sgl_Min) simp_all
  also have "min FLT_MAX (sgl (Min (set prefs))) = sgl (Min (set prefs))"
  proof -
    from assms(1) have "Min (set prefs) \<in> set prefs" by (intro Min_in) simp_all
    with assms(2) have "Min (set prefs) \<le> FLT_MAX" by blast
    from sgl_mono[OF this] have "sgl (Min (set prefs)) \<le> FLT_MAX" by (simp add: sgl_FLT_MAX)
    then show ?thesis by (rule min_absorb2)
  qed
  finally show ?thesis .
qed

lemma maxPref_Max:
  assumes "prefs \<noteq> []" and "\<forall>p\<in>set prefs. FLT_LOWEST \<le> p"
  shows "maxPref prefs (length prefs) = sgl (Max (set prefs))"
proof -
  have "maxPref prefs (length prefs) = Max (insert FLT_LOWEST (sgl ` set prefs))"
    unfolding maxPref_def using maxPref_fold[OF order_refl sgl_FLT_LOWEST, of prefs] by simp
  also have "\<dots> = max FLT_LOWEST (Max (sgl ` set prefs))" using assms(1) by simp
  also have "Max (sgl ` set prefs) = sgl (Max (set prefs))" using assms(1) by (intro sgl_Max) simp_all
  also have "max FLT_LOWEST (sgl (Max (set prefs))) = sgl (Max (set prefs))"
  proof -
    from assms(1) have "Max (set prefs) \<in> set prefs" by (intro Max_in) simp_all
    with assms(2) have "FLT_LOWEST \<le> Max (set prefs)" by blast
    from sgl_mono[OF this] have "FLT_LOWEST \<le> sgl (Max (set prefs))" by (simp add: sgl_FLT_LOWEST)
    then show ?thesis by (rule max_absorb2)
  qed
  finally show ?thesis .
qed

lemma aggregateRead_uninformative:
  assumes "length prefs = nAlts + 1" and "\<forall>p\<in>set prefs. \<bar>p\<bar> \<le> FLT_MAX"
    and "sgl (sgl (Max (set prefs)) - sgl (Min (set prefs))) \<le> MINIMUM_PREF_DIFF"
  shows "aggregateRead nAlts prefs vC = vC"
proof -
  from assms(1) have ne: "prefs \<noteq> []" by auto
  from assms(2) have hi: "\<forall>p\<in>set prefs. p \<le> FLT_MAX" and lo: "\<forall>p\<in>set prefs. FLT_LOWEST \<le> p"
    by (auto simp: FLT_LOWEST_def)
  from minPref_Min[OF ne hi] maxPref_Max[OF ne lo] assms(1,3)
  show ?thesis by (simp add: aggregateRead_def Let_def)
qed

text \<open>
  Where the preferences are values of \<^verbatim>\<open>float\<close>, the test is the one on their exact spread.
\<close>

lemma float_prefs_spread:
  assumes "prefs \<noteq> []" and "\<forall>p\<in>set prefs. sgl p = p"
    and "Max (set prefs) - Min (set prefs) \<le> MINIMUM_PREF_DIFF"
  shows "sgl (sgl (Max (set prefs)) - sgl (Min (set prefs))) \<le> MINIMUM_PREF_DIFF"
proof -
  from assms(1) have "Max (set prefs) \<in> set prefs" by (intro Max_in) simp_all
  moreover from assms(1) have "Min (set prefs) \<in> set prefs" by (intro Min_in) simp_all
  ultimately have e: "sgl (Max (set prefs)) = Max (set prefs)"
      "sgl (Min (set prefs)) = Min (set prefs)"
    using assms(2) by blast+
  from sgl_mono[OF assms(3)] show ?thesis
    unfolding e by (simp add: MINIMUM_PREF_DIFF_def sgl_2)
qed

lemma snd_adPart_length: "length (snd (adPart gtm vai w opts (prefs, rI))) = length rI"
  by (simp add: adPart_def Let_def split: prod.splits)

lemma vaPart_lengths:
  "length (fst (snd (vaPart gtm vai opts refLen altLens (prefs, VAs, Q)))) = length VAs
   \<and> length (snd (snd (vaPart gtm vai opts refLen altLens (prefs, VAs, Q)))) = length Q"
  by (simp add: vaPart_def Let_def split: prod.splits)

lemma snd_vaOldPart_length:
  "length (snd (vaOldPart gtm vai opts refLen altLens (prefs, VAs))) = length VAs"
  by (simp add: vaOldPart_def Let_def split: prod.splits)

lemma scoreRead_lengths:
  "(case scoreRead gtm vai w opts refLen altLens (rI, VAs, Q) of (prefs, rI', VAs', Q') \<Rightarrow>
      length rI' = length rI \<and> length VAs' = length VAs \<and> length Q' = length Q)"
proof -
  obtain p1 r1 where a: "adPart gtm vai w opts (replicate (length altLens + 1) 0, rI) = (p1, r1)"
    by (cases "adPart gtm vai w opts (replicate (length altLens + 1) 0, rI)")
  obtain p2 v2 q2 where b: "vaPart gtm vai opts refLen altLens (p1, VAs, Q) = (p2, v2, q2)"
    by (cases "vaPart gtm vai opts refLen altLens (p1, VAs, Q)") auto
  obtain p3 v3 where c: "vaOldPart gtm vai opts refLen altLens (p2, v2) = (p3, v3)"
    by (cases "vaOldPart gtm vai opts refLen altLens (p2, v2)")
  from snd_adPart_length[of gtm vai w opts "replicate (length altLens + 1) 0" rI] a
  have 1: "length r1 = length rI" by simp
  from vaPart_lengths[of gtm vai opts refLen altLens p1 VAs Q] b
  have 2: "length v2 = length VAs" "length q2 = length Q" by simp_all
  from snd_vaOldPart_length[of gtm vai opts refLen altLens p2 v2] c
  have 3: "length v3 = length v2" by simp
  have "scoreRead gtm vai w opts refLen altLens (rI, VAs, Q) =
          (presencePart gtm vai opts (length altLens) p3, r1, v3, q2)"
    unfolding scoreRead_def by (simp only: prod.case Let_def a b c)
  with 1 2 3 show ?thesis by simp
qed

lemma fold_readStep_uninformative:
  assumes "\<forall>vai\<in>set vais.
             (\<forall>p\<in>set (readPrefs gtm vai w opts refLen altLens). \<bar>p\<bar> \<le> FLT_MAX)
           \<and> sgl (sgl (Max (set (readPrefs gtm vai w opts refLen altLens)))
                   - sgl (Min (set (readPrefs gtm vai w opts refLen altLens))))
               \<le> MINIMUM_PREF_DIFF"
  shows "(case fold (readStep gtm w opts refLen altLens) vais (vC, rI, VAs, Q) of
            (vC', rI', VAs', Q') \<Rightarrow>
              vC' = vC \<and> length rI' = length rI \<and> length VAs' = length VAs
            \<and> length Q' = length Q)"
  using assms
proof (induction vais arbitrary: rI VAs Q)
  case Nil
  then show ?case by simp
next
  case (Cons vai vais)
  let ?rp = "readPrefs gtm vai w opts refLen altLens"
  obtain p r v q where sc: "scoreRead gtm vai w opts refLen altLens (rI, VAs, Q) = (p, r, v, q)"
    by (cases "scoreRead gtm vai w opts refLen altLens (rI, VAs, Q)") auto
  from scoreRead_prefs[of gtm vai w opts refLen altLens rI VAs Q] sc have p: "p = ?rp" by simp
  from scoreRead_lengths[where gtm = gtm and vai = vai and w = w and opts = opts
         and refLen = refLen and altLens = altLens and rI = rI and VAs = VAs and Q = Q] sc
  have l: "length r = length rI" "length v = length VAs" "length q = length Q" by simp_all
  from Cons.prems have u: "\<forall>p\<in>set ?rp. \<bar>p\<bar> \<le> FLT_MAX"
      "sgl (sgl (Max (set ?rp)) - sgl (Min (set ?rp))) \<le> MINIMUM_PREF_DIFF"
    by simp_all
  from aggregateRead_uninformative[OF readPrefs_length u, of vC]
  have st: "readStep gtm w opts refLen altLens vai (vC, rI, VAs, Q) = (vC, r, v, q)"
    using sc p by (simp add: readStep_def)
  from Cons.prems have rest: "\<forall>vai\<in>set vais.
             (\<forall>p\<in>set (readPrefs gtm vai w opts refLen altLens). \<bar>p\<bar> \<le> FLT_MAX)
           \<and> sgl (sgl (Max (set (readPrefs gtm vai w opts refLen altLens)))
                   - sgl (Min (set (readPrefs gtm vai w opts refLen altLens))))
               \<le> MINIMUM_PREF_DIFF"
    by simp
  from Cons.IH[OF rest, of r v q] l show ?case by (simp add: st split: prod.splits)
qed

lemma gtIndex_zero: "gtIndex a b = 0 \<Longrightarrow> a = 0 \<and> b = 0"
proof -
  assume z: "gtIndex a b = 0"
  then have b: "b = 0" and t: "a * (a + 1) div 2 = 0" by (simp_all add: gtIndex_def)
  have "a = 0"
  proof (rule ccontr)
    assume "a \<noteq> 0"
    then have "1 \<le> a" by simp
    then have "1 * 2 \<le> a * (a + 1)" by (intro mult_le_mono) simp_all
    then have "1 \<le> a * (a + 1) div 2" by simp
    with t show False by simp
  qed
  with b show ?thesis by simp
qed

lemma gtSearch_zeros:
  assumes "0 < m"
  shows "(case gtSearch (replicate m 0) m of (maxP, a1, a2, maxA1, maxA2) \<Rightarrow>
            maxP = 0 \<and> maxA1 = 0 \<and> maxA2 = 0)"
proof -
  obtain maxP a1 a2 maxA1 maxA2
    where s: "gtSearch (replicate m 0) m = (maxP, a1, a2, maxA1, maxA2)"
    by (cases "gtSearch (replicate m (0::real)) m") auto
  from gtSearch_inv[OF assms, of "replicate m 0"] s
  have inv: "gtIndex maxA1 maxA2 < m" "maxP = replicate m 0 ! gtIndex maxA1 maxA2"
    "\<forall>i<gtIndex maxA1 maxA2. replicate m (0::real) ! i < maxP"
    by auto
  from inv(1,2) have p: "maxP = 0" by simp
  have "gtIndex maxA1 maxA2 = 0"
  proof (rule ccontr)
    assume "gtIndex maxA1 maxA2 \<noteq> 0"
    then have "0 < gtIndex maxA1 maxA2" by simp
    with inv(3) have "replicate m (0::real) ! 0 < maxP" by blast
    with assms p show False by simp
  qed
  from gtIndex_zero[OF this] p s show ?thesis by simp
qed

lemma showNat_0: "showNat 0 = ''0''"
  by (simp add: showNat.simps)

lemma getGtString_zeros:
  assumes "0 < m" and "ads \<noteq> []" and "vas \<noteq> []" and "2 \<le> length va_reads"
  shows "getGtString (replicate m 0) ads vas va_reads =
           Some (replicate m 0,
                 ''0/0:'' @ commaSep (map showNat ads) @ '':'' @ commaSep (map showNat vas) @ '':''
                 @ commaSep (replicate m ''0'') @ '':'' @ va_reads ! 0 @ '':'' @ va_reads ! 1)"
proof -
  have n: "map uminus (replicate m (0::real)) = replicate m 0" by simp
  obtain maxP a1 a2 maxA1 maxA2
    where s: "gtSearch (replicate m 0) m = (maxP, a1, a2, maxA1, maxA2)"
    by (cases "gtSearch (replicate m (0::real)) m") auto
  from gtSearch_zeros[OF assms(1)] s have z: "maxP = 0" "maxA1 = 0" "maxA2 = 0" by simp_all
  have pl: "map (\<lambda>x. showInt (gtPL 0 x)) (replicate m 0) = replicate m ''0''"
    by (simp add: gtPL_best showInt_def showNat_0)
  have ne: "replicate m (0::real) \<noteq> []" using assms(1) by simp
  show ?thesis
    unfolding getGtString_def n
    using ne assms(2,3,4) s z pl by (simp add: showNat_0)
qed

text \<open>
  Claim C7, as amended. When, under the selected model, the preference vector of every
  candidate read fails the test of the spread as the source computes it, that is
  \<open>maxPref - minPref \<le> MINIMUM_PREF_DIFF\<close> for the greatest and the least preference rounded
  to \<^verbatim>\<open>float\<close> and their difference taken in \<^verbatim>\<open>float\<close>, no read contributes: \<open>vC\<close> stays
  all-zero, and the record written carries the genotype \<open>0/0\<close> and the \<open>PL\<close> value 0 (at the
  first and at every other genotype index). Preferences are in the range of \<^verbatim>\<open>float\<close>.
\<close>

theorem uninformative_reads_genotype:
  assumes "altLens = map length (strSplit CHR '','' (v_alt var))"
    and "refLen = length (v_ref var)"
    and "\<forall>vai\<in>set vais.
             (\<forall>p\<in>set (readPrefs gtm vai w opts refLen altLens). \<bar>p\<bar> \<le> FLT_MAX)
           \<and> sgl (sgl (Max (set (readPrefs gtm vai w opts refLen altLens)))
                   - sgl (Min (set (readPrefs gtm vai w opts refLen altLens))))
               \<le> MINIMUM_PREF_DIFF"
    and "vC = replicate m 0" and "0 < m"
    and "rI \<noteq> []" and "VAs \<noteq> []" and "2 \<le> length VA_qnames"
  shows "(case multiUpdateVC var vais vC rI VAs VA_qnames w opts gtm of
            (vC', AD, VA, reads) \<Rightarrow>
              vC' = replicate m 0
            \<and> getGtString vC' AD VA reads =
                Some (replicate m 0,
                      ''0/0:'' @ commaSep (map showNat AD) @ '':'' @ commaSep (map showNat VA)
                      @ '':'' @ commaSep (replicate m ''0'') @ '':''
                      @ reads ! 0 @ '':'' @ reads ! 1))"
proof -
  obtain vC' AD VA reads
    where f: "fold (readStep gtm w opts refLen altLens) vais (vC, rI, VAs, VA_qnames)
                = (vC', AD, VA, reads)"
    by (cases "fold (readStep gtm w opts refLen altLens) vais (vC, rI, VAs, VA_qnames)") auto
  from fold_readStep_uninformative[OF assms(3), of vC rI VAs VA_qnames] f
  have u: "vC' = vC" "length AD = length rI" "length VA = length VAs"
    "length reads = length VA_qnames"
    by simp_all
  from u assms(6,7,8) have ne: "AD \<noteq> []" "VA \<noteq> []" "2 \<le> length reads" by auto
  have mu: "multiUpdateVC var vais vC rI VAs VA_qnames w opts gtm = (vC', AD, VA, reads)"
    using f by (simp add: multiUpdateVC_def assms(1,2))
  show ?thesis
    unfolding mu using getGtString_zeros[OF assms(5) ne] u(1) assms(4) by simp
qed

lemma exVai_spread2_prefs: "readPrefs ad (exVai\<lparr>alignS := [32, 36]\<rparr>) 10 exOptions 1 [9] = [2, 0]"
  by (simp add: readPrefs_def scoreRead_def adPart_def vaPart_def vaOldPart_def presencePart_def
        alignmentPreference_def apMax_def apMaxStep_def apUpdate_def apPenalty_def
        exVai_def exOptions_def trunc_def NO_ALIGNMENT_def NO_BEST_def incr_def upt_0_2
        minAlignScoreOf_10 round_small)

text \<open>
  One read with the alignment scores 32 and 36: it prefers the alternate allele by 2 bits,
  its preferences are \<open>[2, 0]\<close> with the spread 2. It is counted in \<open>AD\<close>, and the variant is
  written as \<open>0/0\<close> with all \<open>PL\<close> values 0.
\<close>

theorem uninformative_reads_genotype_witness:
  "readPrefs ad (exVai\<lparr>alignS := [32, 36]\<rparr>) 10 exOptions 1 [9] = [2, 0]
   \<and> sgl (sgl (Max (set [2, 0])) - sgl (Min (set [2, 0]))) = 2
   \<and> (case multiUpdateVC exVar [exVai\<lparr>alignS := [32, 36]\<rparr>] [0, 0, 0] [0, 0, 0] [0, 0, 0]
             ['''', '''', ''''] 10 exOptions ad of
        (vC', AD, VA, reads) \<Rightarrow>
          vC' = [0, 0, 0]
        \<and> getGtString vC' AD VA reads =
            Some ([0, 0, 0],
                  ''0/0:'' @ commaSep (map showNat AD) @ '':'' @ commaSep (map showNat VA)
                  @ '':0,0,0:'' @ reads ! 0 @ '':'' @ reads ! 1))"
proof -
  have al: "[9] = map length (strSplit CHR '','' (v_alt exVar))" "1 = length (v_ref exVar)"
    by (simp_all add: exVar_def)
  have sp: "sgl (sgl (Max (set [2, 0])) - sgl (Min (set [2, 0]))) = 2"
    by (simp add: round_small)
  have u: "\<forall>vai\<in>set [exVai\<lparr>alignS := [32, 36]\<rparr>].
             (\<forall>p\<in>set (readPrefs ad vai 10 exOptions 1 [9]). \<bar>p\<bar> \<le> FLT_MAX)
           \<and> sgl (sgl (Max (set (readPrefs ad vai 10 exOptions 1 [9])))
                   - sgl (Min (set (readPrefs ad vai 10 exOptions 1 [9]))))
               \<le> MINIMUM_PREF_DIFF"
    unfolding set_simps ball_simps exVai_spread2_prefs
    by (simp add: FLT_MAX_def MINIMUM_PREF_DIFF_def round_small)
  have r: "[0, 0, 0] = replicate 3 (0::real)" "(0::nat) < 3" "[0, 0, 0 :: nat] \<noteq> []"
    "[0, 0, 0 :: nat] \<noteq> []" "2 \<le> length ['''', '''', '''']"
    by (simp_all add: numeral_3_eq_3)
  from uninformative_reads_genotype[OF al u r]
       exVai_spread2_prefs sp
  show ?thesis by (simp add: numeral_3_eq_3 split: prod.splits)
qed

text \<open>
  A read of three alleles under \<open>joint\<close>, with \<open>overlapBits = 3 + 3 / 2 ^ 22\<close>, a value of
  \<^verbatim>\<open>float\<close>: its preferences are \<open>4\<close>, \<open>overlapBits\<close> and \<open>2 + overlapBits\<close>.
\<close>

lemma upt_1_3: "[Suc 0..<3] = [Suc 0, 2]"
  by (simp add: numeral_3_eq_3 upt_rec[of "Suc 0"] upt_rec[of 2])

lemma exVaiSpread_scored:
  "scoreRead joint exVaiSpread 10 exOptionsOb 1 [5, 9] (rI, VAs, Q)
     = ([4, 12582915 / 4194304, 20971523 / 4194304],
        incr (length (incr 1 rI) - 1) (incr 1 rI),
        incr (length (incr 0 VAs) - 1) (incr 0 VAs),
        Q[0 := Q ! 0 @ '','' @ ''r7''])"
proof -
  have a: "alignmentPreference exVaiSpread 10 exOptionsOb [0, 0, 0] = (1, [4, 0, 2])"
    by (simp add: alignmentPreference_def apMax_def apMaxStep_def apUpdate_def apPenalty_def
          exVaiSpread_def exOptionsOb_def exOptions_def trunc_def NO_ALIGNMENT_def upt_0_3
          minAlignScoreOf_10 round_small)
  have v: "vaPreference exVaiSpread exOptionsOb 1 [5, 9] [4, 0, 2]
             = (0, [4, 12582915 / 4194304, 20971523 / 4194304])"
    by (simp add: vaPreference_def vaSearch_def vaStep_def addExcept_def to_ssize_def
          exVaiSpread_def exOptionsOb_def exOptions_def upt_0_3 upt_1_3)
  have r: "replicate (length [5, 9 :: nat] + 1) (0 :: real) = [0, 0, 0]"
    by (simp add: numeral_3_eq_3)
  have ap: "adPart joint exVaiSpread 10 exOptionsOb ([0, 0, 0], rI)
              = ([4, 0, 2], incr (length (incr 1 rI) - 1) (incr 1 rI))"
    unfolding adPart_def prod.case a by (simp add: NO_BEST_def)
  have vp: "vaPart joint exVaiSpread exOptionsOb 1 [5, 9] ([4, 0, 2], VAs, Q)
              = ([4, 12582915 / 4194304, 20971523 / 4194304],
                 incr (length (incr 0 VAs) - 1) (incr 0 VAs), Q[0 := Q ! 0 @ '','' @ ''r7''])"
    unfolding vaPart_def prod.case v by (simp add: NO_BEST_def exVaiSpread_def)
  have vo: "vaOldPart joint exVaiSpread exOptionsOb 1 [5, 9] s = s" for s
    by (cases s) (simp add: vaOldPart_def)
  have pp: "presencePart joint exVaiSpread exOptionsOb n p = p" for n p
    by (simp add: presencePart_def)
  show ?thesis
    unfolding scoreRead_def Let_def r prod.case ap vp vo pp ..
qed

lemma exVaiSpread_prefs:
  "readPrefs joint exVaiSpread 10 exOptionsOb 1 [5, 9]
     = [4, 12582915 / 4194304, 20971523 / 4194304]"
  unfolding readPrefs_def exVaiSpread_scored by simp

text \<open>
  The greatest preference lies in the middle between two values of \<^verbatim>\<open>float\<close> and is rounded
  up, so that the \<^verbatim>\<open>float\<close> variables differ by more than 2.
\<close>

lemma sgl_ob: "sgl (12582915 / 4194304) = 12582915 / 4194304"
  by (rule sgl_exact_dyadic[where B = 2 and j = 22 and k = 12582915]) simp_all

lemma sgl_ob2: "sgl (20971523 / 4194304) = 5242881 / 1048576"
  by (subst sgl_eval[where e = 2]) (simp_all add: roundToEven_def)

lemma sgl_diff: "sgl (8388609 / 4194304) = 8388609 / 4194304"
  by (rule sgl_exact_dyadic[where B = 2 and j = 22 and k = 8388609]) simp_all

lemma dbl_norm0: "dbl (4194301 / 4194304) = 4194301 / 4194304"
  by (rule dbl_exact_dyadic[where B = 1 and j = 22 and k = 4194301]) simp_all

lemma exVaiSpread_min:
  "minPref [4, 12582915 / 4194304, 20971523 / 4194304] 3 = 12582915 / 4194304"
  by (simp add: minPref_def FLT_MAX_def upt_0_3 round_small sgl_ob)

lemma exVaiSpread_max:
  "maxPref [4, 12582915 / 4194304, 20971523 / 4194304] 3 = 5242881 / 1048576"
  by (simp add: maxPref_def FLT_LOWEST_def FLT_MAX_def upt_0_3 round_small sgl_ob2)

lemma exVaiSpread_normalised:
  "normalise [4, 12582915 / 4194304, 20971523 / 4194304] 3 (12582915 / 4194304)
     = [4194301 / 4194304, 0, 2]"
  by (simp add: normalise_def upt_0_3 round_small dbl_norm0)

lemma upt_0_1: "[0..<1] = [0]"
  by simp

lemma exVaiSpread_pairs:
  "pairLoops [4194301 / 4194304, 0, 2] 3 ([0, 0, 0, 0, 0, 0], 0)
     = ([4194301 / 4194304, 0, 0, 12582909 / 8388608, 1, 2], 6)"
  by (simp add: pairLoops_def pairUpdate_def upt_0_3 upt_0_2)

lemma exVaiSpread_aggregated:
  "aggregateRead 2 [4, 12582915 / 4194304, 20971523 / 4194304] [0, 0, 0, 0, 0, 0]
     = [4194301 / 4194304, 0, 0, 12582909 / 8388608, 1, 2]"
proof -
  have t: "(2 :: nat) + 1 = 3" by simp
  have d: "sgl (5242881 / 1048576 - 12582915 / 4194304) = 8388609 / 4194304"
    using sgl_diff by simp
  show ?thesis
    unfolding aggregateRead_def Let_def t exVaiSpread_min exVaiSpread_max exVaiSpread_normalised
      d exVaiSpread_pairs
    by (simp add: MINIMUM_PREF_DIFF_def)
qed

lemma gtPL_cx_a: "gtPL 0 (- (4194301 / 4194304)) = 3"
proof -
  have a: "dbl (- (4194301 / 4194304) - 0) = - (4194301 / 4194304)"
    by (subst diff_0_right, rule dbl_exact_dyadic[where B = 1 and j = 22 and k = "- 4194301"])
       simp_all
  have b: "dbl (- (4194301 / 4194304) / LG10) = - (1355688261934083 / 4503599627370496)"
    unfolding LG10_value by (subst dbl_eval[where e = "- 2"]) (simp_all add: roundToEven_def)
  have c: "dbl (- 10 * max LL_THRESHOLD (- (1355688261934083 / 4503599627370496)))
             = 6778441309670415 / 2251799813685248"
    unfolding LL_THRESHOLD_def by (subst dbl_eval[where e = 1]) (simp_all add: roundToEven_def)
  show ?thesis unfolding gtPL_eq a b c by (simp add: trunc_def)
qed

lemma gtPL_cx_b: "gtPL 0 (- (12582909 / 8388608)) = 4"
proof -
  have a: "dbl (- (12582909 / 8388608) - 0) = - (12582909 / 8388608)"
    by (subst diff_0_right, rule dbl_exact_dyadic[where B = 1 and j = 23 and k = "- 12582909"])
       simp_all
  have b: "dbl (- (12582909 / 8388608) / LG10) = - (4067066725131251 / 9007199254740992)"
    unfolding LG10_value by (subst dbl_eval[where e = "- 2"]) (simp_all add: roundToEven_def)
  have c: "dbl (- 10 * max LL_THRESHOLD (- (4067066725131251 / 9007199254740992)))
             = 317739587900879 / 70368744177664"
    unfolding LL_THRESHOLD_def by (subst dbl_eval[where e = 2]) (simp_all add: roundToEven_def)
  show ?thesis unfolding gtPL_eq a b c by (simp add: trunc_def)
qed

lemma gtPL_cx_c: "gtPL 0 (- 1) = 3"
proof -
  have a: "dbl (- 1 - 0) = - 1"
    using dbl_of_int[of "- 1"] by simp
  have b: "dbl (- 1 / LG10) = - (169461153949823 / 562949953421312)"
    unfolding LG10_value by (subst dbl_eval[where e = "- 2"]) (simp_all add: roundToEven_def)
  have c: "dbl (- 10 * max LL_THRESHOLD (- (169461153949823 / 562949953421312)))
             = 847305769749115 / 281474976710656"
    unfolding LL_THRESHOLD_def by (subst dbl_eval[where e = 1]) (simp_all add: roundToEven_def)
  show ?thesis unfolding gtPL_eq a b c by (simp add: trunc_def)
qed

lemma gtPL_cx_d: "gtPL 0 (- 2) = 6"
proof -
  have a: "dbl (- 2 - 0) = - 2"
    using dbl_of_int[of "- 2"] by simp
  have b: "dbl (- 2 / LG10) = - (169461153949823 / 281474976710656)"
    unfolding LG10_value by (subst dbl_eval[where e = "- 1"]) (simp_all add: roundToEven_def)
  have c: "dbl (- 10 * max LL_THRESHOLD (- (169461153949823 / 281474976710656)))
             = 847305769749115 / 140737488355328"
    unfolding LL_THRESHOLD_def by (subst dbl_eval[where e = 2]) (simp_all add: roundToEven_def)
  show ?thesis unfolding gtPL_eq a b c by (simp add: trunc_def)
qed

text \<open>
  Claim C7, the counterexample. The preferences of that read have the spread 2, which is
  not more than \<open>MINIMUM_PREF_DIFF\<close>. The read is taken as informative all the same, it adds
  to \<open>vC\<close>, and the record written carries the genotype \<open>0/1\<close> and the \<open>PL\<close> value 3 at the
  first genotype index.
\<close>

theorem uninformative_spread_counterexample:
  "readPrefs joint exVaiSpread 10 exOptionsOb 1 [5, 9]
     = [4, 12582915 / 4194304, 20971523 / 4194304]
   \<and> Max (set [4, 12582915 / 4194304, 20971523 / 4194304 :: real])
       - Min (set [4, 12582915 / 4194304, 20971523 / 4194304]) \<le> MINIMUM_PREF_DIFF
   \<and> multiUpdateVC exVarTwoAlts [exVaiSpread] [0, 0, 0, 0, 0, 0] [0, 0, 0, 0] [0, 0, 0, 0]
        ['''', '''', '''', ''''] 10 exOptionsOb joint
       = ([4194301 / 4194304, 0, 0, 12582909 / 8388608, 1, 2], [0, 1, 0, 1], [1, 0, 0, 1],
          ['',r7'', '''', '''', ''''])
   \<and> getGtString [4194301 / 4194304, 0, 0, 12582909 / 8388608, 1, 2] [0, 1, 0, 1] [1, 0, 0, 1]
        ['',r7'', '''', '''', '''']
       = Some ([- (4194301 / 4194304), 0, 0, - (12582909 / 8388608), - 1, - 2],
               ''0/1:0,1,0,1:1,0,0,1:3,0,0,4,3,6:,r7:'')"
proof -
  have sp: "Max (set [4, 12582915 / 4194304, 20971523 / 4194304 :: real])
       - Min (set [4, 12582915 / 4194304, 20971523 / 4194304]) \<le> MINIMUM_PREF_DIFF"
    by (simp add: MINIMUM_PREF_DIFF_def)
  have al: "map length (strSplit CHR '','' (v_alt exVarTwoAlts)) = [5, 9]"
    "length (v_ref exVarTwoAlts) = 1"
    by (simp_all add: exVarTwoAlts_def)
  have l2: "length [5, 9 :: nat] = 2" by simp
  have mu: "multiUpdateVC exVarTwoAlts [exVaiSpread] [0, 0, 0, 0, 0, 0] [0, 0, 0, 0] [0, 0, 0, 0]
        ['''', '''', '''', ''''] 10 exOptionsOb joint
       = ([4194301 / 4194304, 0, 0, 12582909 / 8388608, 1, 2], [0, 1, 0, 1], [1, 0, 0, 1],
          ['',r7'', '''', '''', ''''])"
    unfolding multiUpdateVC_def Let_def al fold_simps id_apply o_apply readStep_def prod.case
      exVaiSpread_scored l2 exVaiSpread_aggregated
    by (simp add: incr_def)
  let ?n = "[- (4194301 / 4194304), 0, 0, - (12582909 / 8388608), - 1, - 2 :: real]"
  have n: "map uminus [4194301 / 4194304, 0, 0, 12582909 / 8388608, 1, 2 :: real] = ?n" by simp
  have u6: "[0..<6] = [0, 1, 2, 3, 4, 5]" by (simp add: upt_rec)
  have s: "gtSearch ?n (length ?n) = (0, 3, 0, 1, 0)"
    by (simp add: gtSearch_def gtStep_def u6)
  have g: "getGtString [4194301 / 4194304, 0, 0, 12582909 / 8388608, 1, 2] [0, 1, 0, 1] [1, 0, 0, 1]
        ['',r7'', '''', '''', '''']
       = Some (?n, ''0/1:0,1,0,1:1,0,0,1:3,0,0,4,3,6:,r7:'')"
    unfolding getGtString_def Let_def n s
    by (simp add: gtPL_cx_a gtPL_cx_b gtPL_cx_c gtPL_cx_d gtPL_best showNat.simps showInt_def)
  from exVaiSpread_prefs sp mu g show ?thesis by blast
qed

section \<open>The allele window builder: properties\<close>

lemma to_size_id: "0 \<le> x \<Longrightarrow> x < 2 ^ 64 \<Longrightarrow> to_size x = nat x"
  by (simp add: to_size_def)

lemma nameIndex_Some: "nameIndex xs n = Some i \<Longrightarrow> i < length xs"
  by (induction xs arbitrary: i) (auto split: if_splits)

lemma getIdByName_Some: "getIdByName faiI chrom = Some i \<Longrightarrow> i < length faiI"
  using nameIndex_Some[of "map fst faiI" chrom i] by (simp add: getIdByName_def)

lemma readRegion_length:
  assumes "idx < length faiI" and "b \<le> e" and "e \<le> length (snd (faiI ! idx))"
  shows "length (readRegion faiI idx b e) = e - b"
proof -
  let ?n = "length (snd (faiI ! idx))"
  from assms(2,3) have m: "min b ?n = b" "min (max b e) ?n = e" by simp_all
  from assms(2,3) have "min (e - b) (?n - b) = e - b" by simp
  then show ?thesis using assms(1) by (simp add: readRegion_def Let_def m)
qed

lemma readRegion_length_int:
  assumes "idx < length faiI" and "0 \<le> b" and "b \<le> e" and "e \<le> int (length (snd (faiI ! idx)))"
    and "length (snd (faiI ! idx)) < 2 ^ 64"
  shows "length (readRegion faiI idx (to_size b) (to_size e)) = nat (e - b)"
proof -
  have b: "to_size b = nat b" using assms by (intro to_size_id) auto
  have e: "to_size e = nat e" using assms by (intro to_size_id) auto
  have "length (readRegion faiI idx (nat b) (nat e)) = nat e - nat b"
    using assms by (intro readRegion_length) auto
  then show ?thesis using assms(2,3) by (simp add: b e)
qed

lemma altWindow_length:
  assumes "idx < length faiI"
    and "int wSizeActual \<le> v_beginPos variant"
    and "v_beginPos variant + int (length (v_ref variant)) + int wSizeActual
           \<le> int (length (snd (faiI ! idx)))"
    and "length (snd (faiI ! idx)) < 2 ^ 64"
  shows "length (altWindow variant faiI idx wSizeActual opts altStr) = 2 * wSizeActual"
proof -
  let ?B = "v_beginPos variant"
  let ?L = "int (length (v_ref variant))"
  let ?W = "int wSizeActual"
  let ?A = "int (length altStr)"
  note rl = readRegion_length_int[OF assms(1) _ _ _ assms(4)]
  have pre_left: "length (readRegion faiI idx (to_size (?B - ?W)) (to_size ?B)) = wSizeActual"
    using assms(2,3) by (subst rl) auto
  have post_right:
    "length (readRegion faiI idx (to_size (?B + ?L)) (to_size (?B + ?L + ?W))) = wSizeActual"
    using assms(2,3) by (subst rl) auto
  have post_left: "length altStr < wSizeActual \<Longrightarrow>
    length (readRegion faiI idx (to_size (?B + ?L)) (to_size (?B + ?L + ?W - ?A)))
      = wSizeActual - length altStr"
    using assms(2,3) by (subst rl) auto
  have pre_right: "length altStr < wSizeActual \<Longrightarrow>
    length (readRegion faiI idx (to_size (?B - ?W + ?A)) (to_size ?B))
      = wSizeActual - length altStr"
    using assms(2,3) by (subst rl) auto
  show ?thesis
  proof (cases "genotypeRightBreakpoint opts")
    case False
    then show ?thesis
      using pre_left post_left
      by (auto simp: altWindow_def Let_def infixWithLength_def)
  next
    case True
    then show ?thesis
      using post_right pre_right
      by (auto simp: altWindow_def Let_def infixWithLength_def)
  qed
qed

text \<open>
  Claim C8. When the contig of the variant is in the index and the intervals read lie inside
  it (\<open>W \<le> B\<close> and \<open>B + L + W\<close> at most the length of the contig), the reference window and
  the window of every alternate allele that \<^verbatim>\<open>getLocRefAlt\<close> builds have exactly
  \<open>2 * wSizeActual\<close> bases, at the left and at the right breakpoint and for every length of the
  alternate allele.
\<close>

theorem getLocRefAlt_window_lengths:
  assumes "getIdByName faiI chrom = Some idx"
    and "int wSizeActual \<le> v_beginPos variant"
    and "v_beginPos variant + int (length (v_ref variant)) + int wSizeActual
           \<le> int (length (snd (faiI ! idx)))"
    and "length (snd (faiI ! idx)) < 2 ^ 64"
  shows "(case getLocRefAlt variant faiI chrom wSizeActual opts of (refSeq, altSeqs) \<Rightarrow>
            length refSeq = 2 * wSizeActual
          \<and> length altSeqs = length (strSplit CHR '','' (v_alt variant))
          \<and> (\<forall>i<length altSeqs. length (altSeqs ! i) = 2 * wSizeActual))"
proof -
  let ?B = "v_beginPos variant"
  let ?L = "int (length (v_ref variant))"
  let ?W = "int wSizeActual"
  from getIdByName_Some[OF assms(1)] have idx: "idx < length faiI" .
  note rl = readRegion_length_int[OF idx _ _ _ assms(4)]
  have left: "length (readRegion faiI idx (to_size (?B - ?W)) (to_size (?B + ?W))) = 2 * wSizeActual"
    using assms(2,3) by (subst rl) auto
  have right: "length (readRegion faiI idx (to_size (?B - ?W + ?L)) (to_size (?B + ?L + ?W)))
                 = 2 * wSizeActual"
    using assms(2,3) by (subst rl) auto
  show ?thesis
    using left right altWindow_length[OF idx assms(2,3,4)]
    by (simp add: getLocRefAlt_def Let_def assms(1))
qed

text \<open>
  A variant at position 10 with a 2-base reference allele and alternate alleles of 1, 8 and
  0 bases, on a contig of 32 bases, with \<open>wSizeActual = 4\<close>: all windows have 8 bases, at
  either breakpoint.
\<close>

theorem getLocRefAlt_window_lengths_witness:
  "getIdByName exFai ''chr1'' = Some 0
   \<and> map length (strSplit CHR '','' (v_alt exVarSmall)) = [1, 8, 0]
   \<and> (case getLocRefAlt exVarSmall exFai ''chr1'' 4 exOptions of (refSeq, altSeqs) \<Rightarrow>
            length refSeq = 2 * 4
          \<and> length altSeqs = length (strSplit CHR '','' (v_alt exVarSmall))
          \<and> (\<forall>i<length altSeqs. length (altSeqs ! i) = 2 * 4))
   \<and> (case getLocRefAlt exVarSmall exFai ''chr1'' 4 (exOptions\<lparr>genotypeRightBreakpoint := True\<rparr>) of
         (refSeq, altSeqs) \<Rightarrow>
            length refSeq = 2 * 4
          \<and> length altSeqs = length (strSplit CHR '','' (v_alt exVarSmall))
          \<and> (\<forall>i<length altSeqs. length (altSeqs ! i) = 2 * 4))"
proof -
  have h: "getIdByName exFai ''chr1'' = Some 0"
    "int 4 \<le> v_beginPos exVarSmall"
    "v_beginPos exVarSmall + int (length (v_ref exVarSmall)) + int 4
           \<le> int (length (snd (exFai ! 0)))"
    "length (snd (exFai ! 0)) < 2 ^ 64"
    by (simp_all add: getIdByName_def exFai_def exVarSmall_def)
  have s: "map length (strSplit CHR '','' (v_alt exVarSmall)) = [1, 8, 0]"
    by (simp add: exVarSmall_def)
  from getLocRefAlt_window_lengths[OF h, of exOptions]
       getLocRefAlt_window_lengths[OF h, of "exOptions\<lparr>genotypeRightBreakpoint := True\<rparr>"]
       h(1) s
  show ?thesis by simp
qed

section \<open>The read window cropper: properties\<close>

lemma readSpan_Cons:
  "readSpan (c # cs) = (if operation c \<in> set ''=XMSI'' then int (count c) else 0) + readSpan cs"
  by (simp add: readSpan_def)

lemma refSpan_Cons:
  "refSpan (c # cs) = (if operation c \<in> set ''D=XM'' then int (count c) else 0) + refSpan cs"
  by (simp add: refSpan_def)

lemma readSpan_nonneg: "0 \<le> readSpan cs"
  by (induction cs) (simp_all add: readSpan_Cons, simp add: readSpan_def)

lemma cropWalk_inv:
  assumes "cropWalk searchPos cs (a, r, l, op) = (a', r', l', op')"
    and "0 \<le> l" and "l \<le> r"
  shows "0 \<le> l' \<and> l' \<le> r' \<and> r' \<le> r + readSpan cs
       \<and> (searchPos \<le> a + refSpan cs \<longrightarrow> searchPos \<le> a')"
  using assms
proof (induction cs arbitrary: a r l op)
  case Nil
  then show ?case by (simp add: readSpan_def refSpan_def)
next
  case (Cons c cs)
  show ?case
  proof (cases "a < searchPos")
    case False
    with Cons.prems readSpan_nonneg[of "c # cs"] show ?thesis by simp
  next
    case True
    let ?a = "if operation c = CHR ''D'' \<or> operation c = CHR ''='' \<or> operation c = CHR ''X''
                 \<or> operation c = CHR ''M'' then a + int (count c) else a"
    let ?r = "if operation c = CHR ''='' \<or> operation c = CHR ''X'' \<or> operation c = CHR ''M''
                 \<or> operation c = CHR ''S'' \<or> operation c = CHR ''I''
              then r + int (count c) else r"
    from True Cons.prems(1)
    have w: "cropWalk searchPos cs (?a, ?r, r, operation c) = (a', r', l', op')"
      by (simp add: Let_def)
    have l: "0 \<le> r" "r \<le> ?r" using Cons.prems(2,3) by simp_all
    from Cons.IH[OF w l]
    have ih: "0 \<le> l'" "l' \<le> r'" "r' \<le> ?r + readSpan cs"
      "searchPos \<le> ?a + refSpan cs \<longrightarrow> searchPos \<le> a'"
      by simp_all
    have rs: "?r + readSpan cs = r + readSpan (c # cs)"
      by (auto simp: readSpan_Cons)
    have fs: "?a + refSpan cs = a + refSpan (c # cs)"
      by (auto simp: refSpan_Cons)
    from ih rs fs show ?thesis by simp
  qed
qed

lemma cropClamp_valid:
  assumes "rBeg \<le> seqLen" and "rBeg < rEnd" and "1 \<le> seqLen" and "1 \<le> w"
  shows "(case cropClamp w seqLen (rBeg, rEnd) of (b, e) \<Rightarrow> 0 \<le> b \<and> b < e \<and> e \<le> seqLen)"
  using assms by (auto simp: cropClamp_def Let_def)

lemma cropBounds_ordered:
  "1 \<le> w \<Longrightarrow> fst (cropBounds rb w searchPos alignPos readPos)
               < snd (cropBounds rb w searchPos alignPos readPos)"
  by (simp add: cropBounds_def Let_def)

lemma cropBounds_begin:
  assumes "rb \<or> searchPos \<le> alignPos"
  shows "fst (cropBounds rb w searchPos alignPos readPos) \<le> readPos"
  using assms by (auto simp: cropBounds_def Let_def)

text \<open>
  The crop is a part of the read where the walk over the CIGAR comes as far as \<open>searchPos\<close>.
  For a read with a non-empty sequence and a non-empty CIGAR whose operations cover no more
  read bases than the sequence has, and \<open>wSizeActual \<ge> 1\<close>: at the right breakpoint always,
  and at the left breakpoint when the alignment ends at or after \<open>searchPos\<close> (so
  \<open>rShift \<ge> 0\<close>), the final bounds satisfy \<open>0 \<le> rBeg < rEnd \<le> length seq\<close> and the cropped
  sequence has \<open>rEnd - rBeg\<close> bases; this includes the decrement of \<open>rBeg\<close> when both bounds
  are equal.
\<close>

lemma cropSeq_bounds_valid:
  assumes "b_cigar bar \<noteq> []" and "b_seq bar \<noteq> []" and "1 \<le> wSizeActual"
    and "readSpan (b_cigar bar) \<le> int (length (b_seq bar))"
    and "genotypeRightBreakpoint opts
         \<or> max (v_beginPos var - wSizeActual) 0 \<le> b_beginPos bar + refSpan (b_cigar bar)"
  shows "\<exists>rBeg rEnd s.
           cropSeq bar var wSizeActual opts = Some (rBeg, rEnd, Some s)
         \<and> 0 \<le> rBeg \<and> rBeg < rEnd \<and> rEnd \<le> int (length (b_seq bar))
         \<and> int (length s) = rEnd - rBeg"
proof -
  let ?rb = "genotypeRightBreakpoint opts"
  let ?len = "int (length (b_seq bar))"
  define searchPos where "searchPos =
     max (if ?rb then v_beginPos var + int (length (v_ref var)) + wSizeActual
          else v_beginPos var - wSizeActual) 0"
  from assms(1) obtain c0 cs where cg: "b_cigar bar = c0 # cs" by (cases "b_cigar bar") auto
  obtain a r l op
    where w: "cropWalk searchPos (b_cigar bar) (b_beginPos bar, 0, 0, operation c0) = (a, r, l, op)"
    by (cases "cropWalk searchPos (b_cigar bar) (b_beginPos bar, 0, 0, operation c0)") auto
  from cropWalk_inv[OF w] have inv: "0 \<le> l" "l \<le> r" "r \<le> readSpan (b_cigar bar)"
    "searchPos \<le> b_beginPos bar + refSpan (b_cigar bar) \<longrightarrow> searchPos \<le> a"
    by simp_all
  define readPos where "readPos = (if op = CHR ''S'' \<or> op = CHR ''H'' then l else r)"
  have rp: "readPos \<le> ?len" using inv(2,3) assms(4) by (simp add: readPos_def)
  have reach: "?rb \<or> searchPos \<le> a"
    using assms(5) inv(4) by (auto simp: searchPos_def)
  obtain b0 e0 where cb: "cropBounds ?rb wSizeActual searchPos a readPos = (b0, e0)"
    by (cases "cropBounds ?rb wSizeActual searchPos a readPos")
  from cropBounds_ordered[OF assms(3), of ?rb searchPos a readPos] cb have o: "b0 < e0" by simp
  from cropBounds_begin[OF reach, of wSizeActual readPos] cb rp have bl: "b0 \<le> ?len" by simp
  from assms(2) have l1: "1 \<le> ?len" by (cases "b_seq bar") simp_all
  obtain rBeg rEnd where cc: "cropClamp wSizeActual ?len (b0, e0) = (rBeg, rEnd)"
    by (cases "cropClamp wSizeActual ?len (b0, e0)")
  from cropClamp_valid[OF bl o l1 assms(3)] cc
  have v: "0 \<le> rBeg" "rBeg < rEnd" "rEnd \<le> ?len" by simp_all
  let ?s = "map toDna5 (infixWithLength (b_seq bar) (nat rBeg) (nat (rEnd - rBeg)))"
  have w': "cropWalk searchPos (c0 # cs) (b_beginPos bar, 0, 0, operation c0) = (a, r, l, op)"
    using w unfolding cg .
  have cs: "cropSeq bar var wSizeActual opts = Some (rBeg, rEnd, Some ?s)"
    unfolding cropSeq_def Let_def cg list.case searchPos_def[symmetric] w' prod.case
      readPos_def[symmetric] cb cc
    using v by simp
  have "int (length ?s) = rEnd - rBeg"
    using v by (simp add: infixWithLength_def)
  with cs v show ?thesis by blast
qed

text \<open>
  A read ending exactly at \<open>searchPos = 490\<close>: the bounds meet at the end of the read and
  \<open>rBeg\<close> is decremented, the crop is the last base.
\<close>

lemma cropSeq_read_end:
  "cropSeq exReadEnd exVar 10 exOptions = Some (9, 10, Some [DnaC])"
proof -
  have h: "b_cigar exReadEnd \<noteq> []" "b_seq exReadEnd \<noteq> []" "(1::int) \<le> 10"
    "readSpan (b_cigar exReadEnd) \<le> int (length (b_seq exReadEnd))"
    "genotypeRightBreakpoint exOptions
         \<or> max (v_beginPos exVar - 10) 0 \<le> b_beginPos exReadEnd + refSpan (b_cigar exReadEnd)"
    by (simp_all add: exReadEnd_def exVar_def readSpan_def refSpan_def)
  have e: "cropSeq exReadEnd exVar 10 exOptions = Some (9, 10, Some [DnaC])"
    by (simp add: cropSeq_def exReadEnd_def exVar_def exOptions_def cropBounds_def cropClamp_def
          infixWithLength_def toDna5_def Let_def)
  from cropSeq_bounds_valid[OF h] e show ?thesis by simp
qed

section \<open>The read selector: properties\<close>

lemma examine_cong:
  assumes "nAlleles a = nAlleles b" and "length (alignS a) = length (alignS b)"
  shows "examineBamAlignment r var a opts = examineBamAlignment r var b opts"
proof -
  have "map (\<lambda>_. real_of_int NO_ALIGNMENT) (alignS a) = map (\<lambda>_. real_of_int NO_ALIGNMENT) (alignS b)"
    using assms(2) by (simp add: map_replicate_const)
  then have "(reset a)\<lparr>qname := q\<rparr> = (reset b)\<lparr>qname := q\<rparr>" for q
    using assms(1) by (simp add: reset_def)
  then have "(reset a)\<lparr>qname := b_qName r\<rparr> = (reset b)\<lparr>qname := b_qName r\<rparr>" .
  then show ?thesis unfolding examineBamAlignment_def by (simp only:)
qed

lemma examine_size:
  assumes "examineBamAlignment r var a opts = Some vai"
  shows "nAlleles vai = nAlleles a \<and> length (alignS vai) = length (alignS a)"
proof (cases "b_cigar r")
  case Nil
  with assms show ?thesis by (simp add: examineBamAlignment_def)
next
  case (Cons c0 cs)
  with assms show ?thesis
    by (auto simp: examineBamAlignment_def Let_def case_prod_beta reset_def)
qed

lemma examine_Some: "b_cigar r \<noteq> [] \<Longrightarrow> \<exists>vai. examineBamAlignment r var a opts = Some vai"
  by (cases "b_cigar r") (simp_all add: examineBamAlignment_def Let_def case_prod_beta)

lemma new_varAlignInfo_size:
  "nAlleles (new_varAlignInfo n) = n \<and> length (alignS (new_varAlignInfo n)) = n"
  by (simp add: new_varAlignInfo_def)

lemma addCandidate_new:
  assumes "nameCache st (b_qName r) = None"
  shows "addCandidate r vai st =
           st\<lparr>overlappingBars := overlappingBars st @ [r], align_infos := align_infos st @ [vai],
              nameCache := (nameCache st)(b_qName r \<mapsto> length (overlappingBars st))\<rparr>"
  using assms by (simp add: addCandidate_def)

lemma addCandidate_known:
  assumes "nameCache st (b_qName r) = Some index"
  shows "addCandidate r vai st =
           st\<lparr>overlappingBars := (overlappingBars st)[index := r],
              align_infos := (align_infos st)[index := vai]\<rparr>"
  using assms by (simp add: addCandidate_def)

lemma addCandidate_inv:
  assumes inv: "parseInv var opts n st"
    and ex: "examineBamAlignment r var (new_varAlignInfo n) opts = Some vai"
  shows "parseInv var opts n (addCandidate r vai st)"
proof (cases "nameCache st (b_qName r)")
  case None
  let ?bars = "overlappingBars st"
  from inv have l: "length (align_infos st) = length ?bars"
    and c1: "\<And>name i. nameCache st name = Some i \<Longrightarrow> i < length ?bars \<and> b_qName (?bars ! i) = name"
    and c2: "\<And>i. i < length ?bars \<Longrightarrow> nameCache st (b_qName (?bars ! i)) = Some i"
    and e: "\<And>i. i < length ?bars \<Longrightarrow>
              examineBamAlignment (?bars ! i) var (new_varAlignInfo n) opts = Some (align_infos st ! i)"
    and v: "nAlleles (cur_vai st) = n" "length (alignS (cur_vai st)) = n"
    by (simp_all add: parseInv_def)
  have ne: "b_qName (?bars ! i) \<noteq> b_qName r" if "i < length ?bars" for i
    using c2[OF that] None by auto
  show ?thesis
    unfolding addCandidate_new[OF None] parseInv_def
  proof (intro conjI allI impI)
    show "length (align_infos (st\<lparr>overlappingBars := ?bars @ [r], align_infos := align_infos st @ [vai],
              nameCache := (nameCache st)(b_qName r \<mapsto> length ?bars)\<rparr>))
          = length (overlappingBars (st\<lparr>overlappingBars := ?bars @ [r],
              align_infos := align_infos st @ [vai],
              nameCache := (nameCache st)(b_qName r \<mapsto> length ?bars)\<rparr>))"
      using l by simp
  next
    fix name i
    assume "nameCache (st\<lparr>overlappingBars := ?bars @ [r], align_infos := align_infos st @ [vai],
              nameCache := (nameCache st)(b_qName r \<mapsto> length ?bars)\<rparr>) name = Some i"
    then have h: "((nameCache st)(b_qName r \<mapsto> length ?bars)) name = Some i" by simp
    show "i < length (overlappingBars (st\<lparr>overlappingBars := ?bars @ [r],
              align_infos := align_infos st @ [vai],
              nameCache := (nameCache st)(b_qName r \<mapsto> length ?bars)\<rparr>))"
      using h c1[of name i] by (auto split: if_splits)
    show "b_qName (overlappingBars (st\<lparr>overlappingBars := ?bars @ [r],
              align_infos := align_infos st @ [vai],
              nameCache := (nameCache st)(b_qName r \<mapsto> length ?bars)\<rparr>) ! i) = name"
      using h c1[of name i] by (auto simp: nth_append split: if_splits)
  next
    fix i
    assume "i < length (overlappingBars (st\<lparr>overlappingBars := ?bars @ [r],
              align_infos := align_infos st @ [vai],
              nameCache := (nameCache st)(b_qName r \<mapsto> length ?bars)\<rparr>))"
    then have i: "i < length ?bars \<or> i = length ?bars" by auto
    show "nameCache (st\<lparr>overlappingBars := ?bars @ [r], align_infos := align_infos st @ [vai],
              nameCache := (nameCache st)(b_qName r \<mapsto> length ?bars)\<rparr>)
            (b_qName (overlappingBars (st\<lparr>overlappingBars := ?bars @ [r],
              align_infos := align_infos st @ [vai],
              nameCache := (nameCache st)(b_qName r \<mapsto> length ?bars)\<rparr>) ! i)) = Some i"
      using i c2[of i] ne[of i] by (auto simp: nth_append)
    show "examineBamAlignment (overlappingBars (st\<lparr>overlappingBars := ?bars @ [r],
              align_infos := align_infos st @ [vai],
              nameCache := (nameCache st)(b_qName r \<mapsto> length ?bars)\<rparr>) ! i) var
              (new_varAlignInfo n) opts
          = Some (align_infos (st\<lparr>overlappingBars := ?bars @ [r],
              align_infos := align_infos st @ [vai],
              nameCache := (nameCache st)(b_qName r \<mapsto> length ?bars)\<rparr>) ! i)"
      using i e[of i] ex l by (auto simp: nth_append)
  next
    show "nAlleles (cur_vai (st\<lparr>overlappingBars := ?bars @ [r], align_infos := align_infos st @ [vai],
              nameCache := (nameCache st)(b_qName r \<mapsto> length ?bars)\<rparr>)) = n"
      using v by simp
    show "length (alignS (cur_vai (st\<lparr>overlappingBars := ?bars @ [r],
              align_infos := align_infos st @ [vai],
              nameCache := (nameCache st)(b_qName r \<mapsto> length ?bars)\<rparr>))) = n"
      using v by simp
  qed
next
  case (Some index)
  let ?bars = "overlappingBars st"
  from inv have l: "length (align_infos st) = length ?bars"
    and c1: "\<And>name i. nameCache st name = Some i \<Longrightarrow> i < length ?bars \<and> b_qName (?bars ! i) = name"
    and c2: "\<And>i. i < length ?bars \<Longrightarrow> nameCache st (b_qName (?bars ! i)) = Some i"
    and e: "\<And>i. i < length ?bars \<Longrightarrow>
              examineBamAlignment (?bars ! i) var (new_varAlignInfo n) opts = Some (align_infos st ! i)"
    and v: "nAlleles (cur_vai st) = n" "length (alignS (cur_vai st)) = n"
    by (simp_all add: parseInv_def)
  from c1[OF Some] have ix: "index < length ?bars" "b_qName (?bars ! index) = b_qName r" by simp_all
  have nm: "b_qName (?bars[index := r] ! i) = b_qName (?bars ! i)" if "i < length ?bars" for i
    using that ix by (cases "i = index") simp_all
  show ?thesis
    unfolding addCandidate_known[OF Some] parseInv_def
  proof (intro conjI allI impI)
    show "length (align_infos (st\<lparr>overlappingBars := ?bars[index := r],
              align_infos := (align_infos st)[index := vai]\<rparr>))
          = length (overlappingBars (st\<lparr>overlappingBars := ?bars[index := r],
              align_infos := (align_infos st)[index := vai]\<rparr>))"
      using l by simp
  next
    fix name i
    assume "nameCache (st\<lparr>overlappingBars := ?bars[index := r],
              align_infos := (align_infos st)[index := vai]\<rparr>) name = Some i"
    then have h: "nameCache st name = Some i" by simp
    show "i < length (overlappingBars (st\<lparr>overlappingBars := ?bars[index := r],
              align_infos := (align_infos st)[index := vai]\<rparr>))"
      using c1[OF h] by simp
    show "b_qName (overlappingBars (st\<lparr>overlappingBars := ?bars[index := r],
              align_infos := (align_infos st)[index := vai]\<rparr>) ! i) = name"
      using c1[OF h] nm[of i] by simp
  next
    fix i
    assume "i < length (overlappingBars (st\<lparr>overlappingBars := ?bars[index := r],
              align_infos := (align_infos st)[index := vai]\<rparr>))"
    then have i: "i < length ?bars" by simp
    show "nameCache (st\<lparr>overlappingBars := ?bars[index := r],
              align_infos := (align_infos st)[index := vai]\<rparr>)
            (b_qName (overlappingBars (st\<lparr>overlappingBars := ?bars[index := r],
              align_infos := (align_infos st)[index := vai]\<rparr>) ! i)) = Some i"
      using c2[OF i] nm[OF i] by simp
    show "examineBamAlignment (overlappingBars (st\<lparr>overlappingBars := ?bars[index := r],
              align_infos := (align_infos st)[index := vai]\<rparr>) ! i) var
              (new_varAlignInfo n) opts
          = Some (align_infos (st\<lparr>overlappingBars := ?bars[index := r],
              align_infos := (align_infos st)[index := vai]\<rparr>) ! i)"
      using i e[OF i] ex l by (cases "i = index") simp_all
  next
    show "nAlleles (cur_vai (st\<lparr>overlappingBars := ?bars[index := r],
              align_infos := (align_infos st)[index := vai]\<rparr>)) = n"
      using v by simp
    show "length (alignS (cur_vai (st\<lparr>overlappingBars := ?bars[index := r],
              align_infos := (align_infos st)[index := vai]\<rparr>))) = n"
      using v by simp
  qed
qed

lemma addCandidate_bars:
  assumes inv: "parseInv var opts n st"
  shows "set (overlappingBars (addCandidate r vai st)) \<subseteq> insert r (set (overlappingBars st))"
    and "b_qName r \<in> b_qName ` set (overlappingBars (addCandidate r vai st))"
    and "b_qName ` set (overlappingBars st) \<subseteq> b_qName ` set (overlappingBars (addCandidate r vai st))"
    and "length (overlappingBars (addCandidate r vai st)) \<le> Suc (length (overlappingBars st))"
proof -
  let ?bars = "overlappingBars st"
  from inv have c1: "\<And>name i. nameCache st name = Some i \<Longrightarrow>
      i < length ?bars \<and> b_qName (?bars ! i) = name"
    by (simp add: parseInv_def)
  show "set (overlappingBars (addCandidate r vai st)) \<subseteq> insert r (set ?bars)"
    by (cases "nameCache st (b_qName r)")
       (auto simp: addCandidate_new addCandidate_known dest: set_update_subset_insert[THEN subsetD])
  show "b_qName r \<in> b_qName ` set (overlappingBars (addCandidate r vai st))"
  proof (cases "nameCache st (b_qName r)")
    case None
    then show ?thesis by (simp add: addCandidate_new)
  next
    case (Some index)
    from c1[OF Some] have "index < length ?bars" by simp
    then have "r \<in> set (?bars[index := r])" by (rule set_update_memI)
    then show ?thesis by (simp add: addCandidate_known[OF Some])
  qed
  show "b_qName ` set ?bars \<subseteq> b_qName ` set (overlappingBars (addCandidate r vai st))"
  proof (cases "nameCache st (b_qName r)")
    case None
    then show ?thesis by (auto simp: addCandidate_new)
  next
    case (Some index)
    from c1[OF Some] have ix: "index < length ?bars" "b_qName (?bars ! index) = b_qName r"
      by simp_all
    show ?thesis
    proof
      fix x assume "x \<in> b_qName ` set ?bars"
      then obtain i where i: "i < length ?bars" "x = b_qName (?bars ! i)"
        by (auto simp: in_set_conv_nth)
      have "b_qName (?bars[index := r] ! i) = x"
        using i ix by (cases "i = index") simp_all
      moreover have "?bars[index := r] ! i \<in> set (?bars[index := r])"
        using i(1) by simp
      ultimately show "x \<in> b_qName ` set (overlappingBars (addCandidate r vai st))"
        unfolding addCandidate_known[OF Some] by (auto simp: image_iff) 
    qed
  qed
  show "length (overlappingBars (addCandidate r vai st)) \<le> Suc (length ?bars)"
    by (cases "nameCache st (b_qName r)") (simp_all add: addCandidate_new addCandidate_known)
qed

lemma parseInv_cur_vai:
  assumes "parseInv var opts n st" and "nAlleles vai = n" and "length (alignS vai) = n"
  shows "parseInv var opts n (st\<lparr>cur_vai := vai\<rparr>)"
  using assms by (simp add: parseInv_def)

lemma parseInv_initial:
  "parseInv var opts n \<lparr>overlappingBars = [], align_infos = [], cur_vai = new_varAlignInfo n,
                          nameCache = Map.empty\<rparr>"
  by (simp add: parseInv_def new_varAlignInfo_size)

lemma parseInv_distinct:
  assumes "parseInv var opts n st"
  shows "distinct (map b_qName (overlappingBars st))"
proof -
  from assms have c2: "\<And>i. i < length (overlappingBars st) \<Longrightarrow>
      nameCache st (b_qName (overlappingBars st ! i)) = Some i"
    by (simp add: parseInv_def)
  show ?thesis
    unfolding distinct_conv_nth
  proof (intro allI impI)
    fix i j
    assume i: "i < length (map b_qName (overlappingBars st))"
      and j: "j < length (map b_qName (overlappingBars st))" and ne: "i \<noteq> j"
    show "map b_qName (overlappingBars st) ! i \<noteq> map b_qName (overlappingBars st) ! j"
    proof
      assume "map b_qName (overlappingBars st) ! i = map b_qName (overlappingBars st) ! j"
      with i j have eq: "b_qName (overlappingBars st ! i) = b_qName (overlappingBars st ! j)"
        by simp
      from i have "nameCache st (b_qName (overlappingBars st ! i)) = Some i" by (intro c2) simp
      then have ci: "nameCache st (b_qName (overlappingBars st ! j)) = Some i" unfolding eq .
      from j have cj: "nameCache st (b_qName (overlappingBars st ! j)) = Some j"
        by (intro c2) simp
      from ci cj have "Some i = Some j" by (rule trans[OF sym])
      with ne show False by simp
    qed
  qed
qed

subsection \<open>The candidates and the reads seen\<close>

lemma parseSel_cur_vai [simp]:
  "parseSel beg opts seen (st\<lparr>cur_vai := vai\<rparr>) = parseSel beg opts seen st"
  by (simp add: parseSel_def)

lemma parseSel_initial:
  "parseSel beg opts [] \<lparr>overlappingBars = [], align_infos = [], cur_vai = v,
                           nameCache = Map.empty\<rparr>"
  by (simp add: parseSel_def)

lemma parseSel_other:
  assumes "parseSel beg opts seen st" and "\<not> passesFilters beg opts r"
  shows "parseSel beg opts (seen @ [r]) st"
  using assms by (simp add: parseSel_def)

lemma addCandidate_members:
  assumes inv: "parseInv var opts n st"
    and c: "c \<in> set (overlappingBars (addCandidate r vai st))"
  shows "c = r \<or> (c \<in> set (overlappingBars st) \<and> b_qName c \<noteq> b_qName r)"
proof -
  let ?bars = "overlappingBars st"
  from inv have c1: "\<And>name i. nameCache st name = Some i \<Longrightarrow>
      i < length ?bars \<and> b_qName (?bars ! i) = name"
    and c2: "\<And>i. i < length ?bars \<Longrightarrow> nameCache st (b_qName (?bars ! i)) = Some i"
    by (simp_all add: parseInv_def)
  show ?thesis
  proof (cases "nameCache st (b_qName r)")
    case None
    from c have "c = r \<or> c \<in> set ?bars" by (auto simp: addCandidate_new[OF None])
    then show ?thesis
    proof
      assume "c = r"
      then show ?thesis ..
    next
      assume m: "c \<in> set ?bars"
      then obtain i where i: "i < length ?bars" "c = ?bars ! i" by (auto simp: in_set_conv_nth)
      from c2[OF i(1)] i(2) have "nameCache st (b_qName c) = Some i" by simp
      with None have "b_qName c \<noteq> b_qName r" by auto
      with m show ?thesis by simp
    qed
  next
    case (Some index)
    from c1[OF Some] have ix: "index < length ?bars" by simp
    from c have "c \<in> set (?bars[index := r])" by (simp add: addCandidate_known[OF Some])
    then obtain j where j: "j < length ?bars" "c = ?bars[index := r] ! j"
      by (auto simp: in_set_conv_nth)
    show ?thesis
    proof (cases "j = index")
      case True
      with j ix have "c = r" by simp
      then show ?thesis ..
    next
      case False
      with j have cj: "c = ?bars ! j" by simp
      from c2[OF j(1)] cj have "nameCache st (b_qName c) = Some j" by simp
      with Some False have "b_qName c \<noteq> b_qName r" by auto
      moreover from j(1) cj have "c \<in> set ?bars" by simp
      ultimately show ?thesis by simp
    qed
  qed
qed

lemma addCandidate_sel:
  assumes inv: "parseInv var opts n st" and sel: "parseSel beg opts seen st"
    and p: "passesFilters beg opts r"
  shows "parseSel beg opts (seen @ [r]) (addCandidate r vai st)"
proof -
  let ?P = "passesFilters beg opts"
  let ?st' = "addCandidate r vai st"
  from sel have n: "b_qName ` set (overlappingBars st) = b_qName ` set (filter ?P seen)"
    and l: "\<And>c. c \<in> set (overlappingBars st) \<Longrightarrow>
              c = last (filter (\<lambda>x. ?P x \<and> b_qName x = b_qName c) seen)"
    by (simp_all add: parseSel_def)
  from addCandidate_bars[OF inv, of r vai]
  have b: "set (overlappingBars ?st') \<subseteq> insert r (set (overlappingBars st))"
    "b_qName r \<in> b_qName ` set (overlappingBars ?st')"
    "b_qName ` set (overlappingBars st) \<subseteq> b_qName ` set (overlappingBars ?st')"
    by simp_all
  have "b_qName ` set (overlappingBars ?st') = insert (b_qName r) (b_qName ` set (overlappingBars st))"
    using b by auto
  then have 1: "b_qName ` set (overlappingBars ?st') = b_qName ` set (filter ?P (seen @ [r]))"
    using n p by simp
  have 2: "\<forall>c\<in>set (overlappingBars ?st').
             c = last (filter (\<lambda>x. ?P x \<and> b_qName x = b_qName c) (seen @ [r]))"
  proof
    fix c assume "c \<in> set (overlappingBars ?st')"
    from addCandidate_members[OF inv this]
    show "c = last (filter (\<lambda>x. ?P x \<and> b_qName x = b_qName c) (seen @ [r]))"
    proof
      assume "c = r"
      with p show ?thesis by simp
    next
      assume "c \<in> set (overlappingBars st) \<and> b_qName c \<noteq> b_qName r"
      then have "c = last (filter (\<lambda>x. ?P x \<and> b_qName x = b_qName c) seen)"
        and "b_qName r \<noteq> b_qName c"
        using l by auto
      then show ?thesis by simp
    qed
  qed
  from 1 2 show ?thesis unfolding parseSel_def by simp
qed

lemma parseSel_size:
  assumes "parseInv var opts n st" and "parseSel beg opts seen st"
  shows "length (overlappingBars st) = card (b_qName ` set (filter (passesFilters beg opts) seen))"
proof -
  from parseInv_distinct[OF assms(1)]
  have "card (set (map b_qName (overlappingBars st))) = length (map b_qName (overlappingBars st))"
    by (rule distinct_card)
  then have "card (b_qName ` set (overlappingBars st)) = length (overlappingBars st)" by simp
  with assms(2) show ?thesis by (simp add: parseSel_def)
qed

text \<open>
  The loop goes through a run \<open>pre\<close> of reads none of which makes it stop: each begins at or
  before \<open>stopReading\<close>, is skipped or begins before the end of the window, and comes when
  fewer than \<open>maxBARcount\<close> candidates are collected.
\<close>

lemma parseLoop_prefix:
  assumes "parseInv var opts n st" and "parseSel beg opts seen st"
    and "\<forall>r\<in>set pre. b_cigar r \<noteq> []"
    and "\<forall>r\<in>set pre. b_beginPos r \<le> stopR \<and> (skipRead beg opts r \<or> b_beginPos r < end')"
    and "\<forall>k<length pre.
           card (b_qName ` set (filter (passesFilters beg opts) (seen @ take k pre)))
             < maxBARcount opts"
  shows "\<exists>st'. parseLoop var opts beg end' stopR (pre @ rest) st
               = parseLoop var opts beg end' stopR rest st'
       \<and> parseInv var opts n st' \<and> parseSel beg opts (seen @ pre) st'"
  using assms
proof (induction pre arbitrary: st seen)
  case Nil
  then show ?case by auto
next
  case (Cons r pre)
  let ?P = "passesFilters beg opts"
  from Cons.prems(5) have "card (b_qName ` set (filter ?P (seen @ take 0 (r # pre)))) < maxBARcount opts"
    by blast
  with parseSel_size[OF Cons.prems(1,2)]
  have size: "\<not> length (overlappingBars st) \<ge> maxBARcount opts" by simp
  from Cons.prems(4) have rng: "b_beginPos r \<le> stopR" "skipRead beg opts r \<or> b_beginPos r < end'"
    and rng': "\<forall>r\<in>set pre. b_beginPos r \<le> stopR \<and> (skipRead beg opts r \<or> b_beginPos r < end')"
    by simp_all
  from Cons.prems(3) have cg: "b_cigar r \<noteq> []" and cg': "\<forall>r\<in>set pre. b_cigar r \<noteq> []"
    by simp_all
  have cap': "\<forall>k<length pre.
           card (b_qName ` set (filter ?P ((seen @ [r]) @ take k pre))) < maxBARcount opts"
  proof (intro allI impI)
    fix k assume "k < length pre"
    then have "Suc k < length (r # pre)" by simp
    with Cons.prems(5)
    have "card (b_qName ` set (filter ?P (seen @ take (Suc k) (r # pre)))) < maxBARcount opts"
      by blast
    then show "card (b_qName ` set (filter ?P ((seen @ [r]) @ take k pre))) < maxBARcount opts"
      by simp
  qed
  have app: "(seen @ [r]) @ pre = seen @ r # pre" by simp
  show ?case
  proof (cases "skipRead beg opts r")
    case True
    then have np: "\<not> ?P r" by (simp add: passesFilters_def)
    have step: "parseLoop var opts beg end' stopR ((r # pre) @ rest) st
                  = parseLoop var opts beg end' stopR (pre @ rest) st"
      using size rng(1) True by simp
    from parseSel_other[OF Cons.prems(2) np] have sel: "parseSel beg opts (seen @ [r]) st" .
    from Cons.IH[OF Cons.prems(1) sel cg' rng' cap'] show ?thesis
      unfolding step app .
  next
    case False
    with rng(2) have lt: "\<not> b_beginPos r \<ge> end'" by simp
    from Cons.prems(1) have sz: "nAlleles (cur_vai st) = n" "length (alignS (cur_vai st)) = n"
      by (simp_all add: parseInv_def)
    have ec: "examineBamAlignment r var (cur_vai st) opts
                = examineBamAlignment r var (new_varAlignInfo n) opts"
      using sz by (intro examine_cong) (simp_all add: new_varAlignInfo_size)
    from examine_Some[OF cg] obtain vai
      where ex: "examineBamAlignment r var (new_varAlignInfo n) opts = Some vai" by blast
    from examine_size[OF ex] have vs: "nAlleles vai = n" "length (alignS vai) = n"
      by (simp_all add: new_varAlignInfo_size)
    let ?st1 = "st\<lparr>cur_vai := vai\<rparr>"
    from parseInv_cur_vai[OF Cons.prems(1) vs] have inv1: "parseInv var opts n ?st1" .
    from Cons.prems(2) have sel1: "parseSel beg opts seen ?st1" by simp
    show ?thesis
    proof (cases "keepRead opts r")
      case True
      with False have p: "?P r" by (simp add: passesFilters_def)
      let ?st2 = "addCandidate r vai ?st1"
      have step: "parseLoop var opts beg end' stopR ((r # pre) @ rest) st
                    = parseLoop var opts beg end' stopR (pre @ rest) ?st2"
        using size rng(1) False lt True by (simp add: ec ex)
      from addCandidate_inv[OF inv1 ex] have inv2: "parseInv var opts n ?st2" .
      from addCandidate_sel[OF inv1 sel1 p] have sel2: "parseSel beg opts (seen @ [r]) ?st2" .
      from Cons.IH[OF inv2 sel2 cg' rng' cap'] show ?thesis
        unfolding step app .
    next
      case False
      then have np: "\<not> ?P r" by (simp add: passesFilters_def)
      have step: "parseLoop var opts beg end' stopR ((r # pre) @ rest) st
                    = parseLoop var opts beg end' stopR (pre @ rest) ?st1"
        using size rng(1) \<open>\<not> skipRead beg opts r\<close> lt False by (simp add: ec ex)
      from parseSel_other[OF sel1 np] have sel: "parseSel beg opts (seen @ [r]) ?st1" .
      from Cons.IH[OF inv1 sel cg' rng' cap'] show ?thesis
        unfolding step app .
    qed
  qed
qed

text \<open>The loop stops: no read is left, or the next read makes it stop.\<close>

lemma parseLoop_stop:
  assumes "rest = [] \<or> maxBARcount opts \<le> length (overlappingBars st)
           \<or> b_beginPos (hd rest) > stopR
           \<or> (\<not> skipRead beg opts (hd rest) \<and> b_beginPos (hd rest) \<ge> end')"
    and "\<forall>r\<in>set rest. b_cigar r \<noteq> []"
  shows "\<exists>st'. parseLoop var opts beg end' stopR rest st = Some st'
       \<and> overlappingBars st' = overlappingBars st \<and> align_infos st' = align_infos st"
proof (cases rest)
  case Nil
  then show ?thesis by simp
next
  case (Cons r rs)
  with assms(1) have s: "maxBARcount opts \<le> length (overlappingBars st) \<or> b_beginPos r > stopR
      \<or> (\<not> skipRead beg opts r \<and> b_beginPos r \<ge> end')"
    by simp
  from assms(2) Cons have "b_cigar r \<noteq> []" by simp
  from examine_Some[OF this] obtain vai
    where ex: "examineBamAlignment r var (cur_vai st) opts = Some vai" by blast
  show ?thesis using s ex unfolding Cons by auto
qed

text \<open>
  Claim C2, as amended. The loop over the position-sorted reads stops at the first read that
  begins after \<open>stopReading\<close> (which is the begin \<open>B - W\<close> of the window at the left breakpoint,
  and its end \<open>B + W + refLen\<close> at the right breakpoint), at the first read it does not skip
  that begins at or after the end of the window, or when \<open>maxBARcount\<close> candidates are
  collected. Every read before that point that passes the filters is examined and entered
  as a candidate, where a later read replaces the candidate of the same name.

  The reads before that point are \<open>pre\<close>, the others \<open>rest\<close>. None of \<open>pre\<close> makes the loop
  stop: the number of candidates collected before a read is the number of the names of the
  passing reads before it. The loop stops after \<open>pre\<close>: no read is left, or \<open>maxBARcount\<close>
  names are collected, or the next read begins too late. The result holds one candidate for
  every name of a passing read of \<open>pre\<close> and no other, each candidate is the last passing
  read of its name in \<open>pre\<close>, and each carries the evidence record of its own examination.
\<close>

theorem parseReads_selection:
  assumes "\<forall>r\<in>set (pre @ rest). b_cigar r \<noteq> []"
    and "\<forall>r\<in>set pre. b_beginPos r \<le> stopReading var w opts
           \<and> (skipRead (windowBeg var w opts) opts r \<or> b_beginPos r < windowEnd var w opts)"
    and "\<forall>k<length pre.
           card (b_qName ` set (filter (passesFilters (windowBeg var w opts) opts) (take k pre)))
             < maxBARcount opts"
    and "rest = []
         \<or> maxBARcount opts
             \<le> card (b_qName ` set (filter (passesFilters (windowBeg var w opts) opts) pre))
         \<or> b_beginPos (hd rest) > stopReading var w opts
         \<or> (\<not> skipRead (windowBeg var w opts) opts (hd rest)
             \<and> b_beginPos (hd rest) \<ge> windowEnd var w opts)"
  shows "\<exists>cands infos.
            parseReads (pre @ rest) var w opts = Some (cands, infos)
          \<and> length infos = length cands
          \<and> distinct (map b_qName cands)
          \<and> b_qName ` set cands
               = b_qName ` set (filter (passesFilters (windowBeg var w opts) opts) pre)
          \<and> (\<forall>c\<in>set cands.
                 c = last (filter (\<lambda>r. passesFilters (windowBeg var w opts) opts r
                                        \<and> b_qName r = b_qName c) pre))
          \<and> length cands \<le> maxBARcount opts
          \<and> (\<forall>i<length cands.
                 examineBamAlignment (cands ! i) var
                   (new_varAlignInfo (length (strSplit CHR '','' (v_alt var)) + 1)) opts
                 = Some (infos ! i))"
proof -
  let ?n = "length (strSplit CHR '','' (v_alt var)) + 1"
  let ?beg = "windowBeg var w opts"
  let ?end = "windowEnd var w opts"
  let ?stop = "stopReading var w opts"
  let ?P = "passesFilters ?beg opts"
  let ?st0 = "\<lparr>overlappingBars = [], align_infos = [], cur_vai = new_varAlignInfo ?n,
                nameCache = Map.empty\<rparr>"
  from assms(1) have cp: "\<forall>r\<in>set pre. b_cigar r \<noteq> []" and cr: "\<forall>r\<in>set rest. b_cigar r \<noteq> []"
    by simp_all
  have cap: "\<forall>k<length pre. card (b_qName ` set (filter ?P ([] @ take k pre))) < maxBARcount opts"
    using assms(3) by simp
  from parseLoop_prefix[OF parseInv_initial parseSel_initial cp assms(2) cap, where rest = rest]
  obtain st1
    where st1: "parseLoop var opts ?beg ?end ?stop (pre @ rest) ?st0
                  = parseLoop var opts ?beg ?end ?stop rest st1"
      "parseInv var opts ?n st1" "parseSel ?beg opts pre st1"
    by auto
  from parseSel_size[OF st1(2,3)]
  have sz: "length (overlappingBars st1) = card (b_qName ` set (filter ?P pre))" .
  have stop: "rest = [] \<or> maxBARcount opts \<le> length (overlappingBars st1)
           \<or> b_beginPos (hd rest) > ?stop
           \<or> (\<not> skipRead ?beg opts (hd rest) \<and> b_beginPos (hd rest) \<ge> ?end)"
    using assms(4) unfolding sz .
  from parseLoop_stop[OF stop cr, where var = var] obtain st2
    where st2: "parseLoop var opts ?beg ?end ?stop rest st1 = Some st2"
      "overlappingBars st2 = overlappingBars st1" "align_infos st2 = align_infos st1"
    by blast
  have res: "parseReads (pre @ rest) var w opts = Some (overlappingBars st1, align_infos st1)"
    unfolding parseReads_def Let_def st1(1) st2(1) by (simp add: st2(2,3))
  from st1(2) have len: "length (align_infos st1) = length (overlappingBars st1)"
    and ev: "\<forall>i<length (overlappingBars st1).
               examineBamAlignment (overlappingBars st1 ! i) var (new_varAlignInfo ?n) opts
                 = Some (align_infos st1 ! i)"
    by (simp_all add: parseInv_def)
  from st1(3) have nm: "b_qName ` set (overlappingBars st1) = b_qName ` set (filter ?P pre)"
    and la: "\<forall>c\<in>set (overlappingBars st1).
               c = last (filter (\<lambda>r. ?P r \<and> b_qName r = b_qName c) pre)"
    by (simp_all add: parseSel_def)
  have le: "length (overlappingBars st1) \<le> maxBARcount opts"
  proof (cases "pre = []")
    case True
    then show ?thesis using sz by simp
  next
    case False
    then have k: "length pre - 1 < length pre" by simp
    with assms(3)
    have b: "card (b_qName ` set (filter ?P (take (length pre - 1) pre))) < maxBARcount opts"
      by blast
    have "butlast pre @ [last pre] = pre" using False by (rule append_butlast_last_id)
    then have "set (butlast pre @ [last pre]) = set pre" by (simp only:)
    then have "set pre \<subseteq> insert (last pre) (set (butlast pre))" by auto
    then have "set (filter ?P pre) \<subseteq> insert (last pre) (set (filter ?P (butlast pre)))"
      by auto
    then have "set (filter ?P pre)
        \<subseteq> insert (last pre) (set (filter ?P (take (length pre - 1) pre)))"
      by (simp only: butlast_conv_take)
    then have "b_qName ` set (filter ?P pre)
        \<subseteq> insert (b_qName (last pre)) (b_qName ` set (filter ?P (take (length pre - 1) pre)))"
      by auto
    then have "card (b_qName ` set (filter ?P pre))
        \<le> card (insert (b_qName (last pre))
                   (b_qName ` set (filter ?P (take (length pre - 1) pre))))"
      by (intro card_mono) simp_all
    also have "\<dots> \<le> Suc (card (b_qName ` set (filter ?P (take (length pre - 1) pre))))"
      by (simp add: card_insert_if)
    finally show ?thesis using b sz by simp
  qed
  from res len parseInv_distinct[OF st1(2)] nm la le ev
  show ?thesis by blast
qed

lemma exReads_pass:
  "passesFilters 490 exOptions2 exReadLeft" "passesFilters 490 exOptions2 exReadLeft2"
  "passesFilters 490 exOptions2 exReadMid" "passesFilters 490 exOptions2 exReadMid2"
  by (simp_all add: passesFilters_def skipRead_def keepRead_def softClipRemove_def hardClipped_def
        hasFlagDuplicate_def hasFlagQCNoPass_def getAlignmentLengthInRef_def
        exOptions2_def exOptions_def exReadLeft_def exReadLeft2_def exReadMid_def exReadMid2_def
        exReadInside_def)

lemma exWindow2:
  "windowBeg exVar 10 exOptions2 = 490" "windowEnd exVar 10 exOptions2 = 510"
  "stopReading exVar 10 exOptions2 = 490"
  by (simp_all add: windowBeg_def windowEnd_def stopReading_def exVar_def exOptions2_def
        exOptions_def)

lemma exReads_names:
  "b_qName exReadLeft = ''r6''" "b_qName exReadLeft2 = ''r6''" "b_qName exReadMid = ''r5''"
  "b_qName exReadMid2 = ''r9''"
  by (simp_all add: exReadLeft_def exReadLeft2_def exReadMid_def exReadMid2_def exReadInside_def)

lemma exReads_begin:
  "b_beginPos exReadLeft = 480" "b_beginPos exReadLeft2 = 481" "b_beginPos exReadMid = 485"
  "b_beginPos exReadMid2 = 488"
  by (simp_all add: exReadLeft_def exReadLeft2_def exReadMid_def exReadMid2_def exReadInside_def)

lemma exReads_cigar:
  "b_cigar exReadLeft \<noteq> []" "b_cigar exReadLeft2 \<noteq> []" "b_cigar exReadMid \<noteq> []"
  "b_cigar exReadMid2 \<noteq> []"
  by (simp_all add: exReadLeft_def exReadLeft2_def exReadMid_def exReadMid2_def exReadInside_def)

lemma exReads_selected:
  "map_option fst (parseReads ([exReadLeft, exReadLeft2, exReadMid] @ [exReadMid2]) exVar 10 exOptions2)
     = Some [exReadLeft2, exReadMid]"
proof -
  have k: "\<not> skipRead 490 exOptions2 exReadLeft" "keepRead exOptions2 exReadLeft"
    "\<not> skipRead 490 exOptions2 exReadLeft2" "keepRead exOptions2 exReadLeft2"
    "\<not> skipRead 490 exOptions2 exReadMid" "keepRead exOptions2 exReadMid"
    using exReads_pass by (simp_all add: passesFilters_def)
  have m: "maxBARcount exOptions2 = 2" by (simp add: exOptions2_def)
  have n: "length (strSplit CHR '','' (v_alt exVar)) + 1 = 2" by (simp add: exVar_def)
  obtain v1 where e1: "examineBamAlignment exReadLeft exVar (new_varAlignInfo 2) exOptions2 = Some v1"
    using examine_Some[OF exReads_cigar(1)] by blast
  obtain v2 where e2: "examineBamAlignment exReadLeft2 exVar v1 exOptions2 = Some v2"
    using examine_Some[OF exReads_cigar(2)] by blast
  obtain v3 where e3: "examineBamAlignment exReadMid exVar v2 exOptions2 = Some v3"
    using examine_Some[OF exReads_cigar(3)] by blast
  show ?thesis
    unfolding parseReads_def Let_def exWindow2 n
    by (simp add: k m e1 e2 e3 exReads_begin exReads_names addCandidate_def)
qed

text \<open>
  At the left breakpoint, window \<open>[490, 510)\<close>, with \<open>maxBARcount = 2\<close>: the reads at 480 and
  481 have the same name, the read at 485 another one. After these three reads two
  candidates are collected, the later one of the first two reads and the third; the fourth
  read, which passes the filters as well, is not read any more.
\<close>

theorem parseReads_selection_witness:
  "b_cigar exReadLeft \<noteq> [] \<and> b_cigar exReadLeft2 \<noteq> [] \<and> b_cigar exReadMid \<noteq> []
   \<and> b_cigar exReadMid2 \<noteq> []
   \<and> b_beginPos exReadLeft \<le> stopReading exVar 10 exOptions2
   \<and> b_beginPos exReadLeft < windowEnd exVar 10 exOptions2
   \<and> b_beginPos exReadLeft2 \<le> stopReading exVar 10 exOptions2
   \<and> b_beginPos exReadLeft2 < windowEnd exVar 10 exOptions2
   \<and> b_beginPos exReadMid \<le> stopReading exVar 10 exOptions2
   \<and> b_beginPos exReadMid < windowEnd exVar 10 exOptions2
   \<and> card (b_qName ` set (filter (passesFilters (windowBeg exVar 10 exOptions2) exOptions2)
                              (take 0 [exReadLeft, exReadLeft2, exReadMid])))
        < maxBARcount exOptions2
   \<and> card (b_qName ` set (filter (passesFilters (windowBeg exVar 10 exOptions2) exOptions2)
                              (take 1 [exReadLeft, exReadLeft2, exReadMid])))
        < maxBARcount exOptions2
   \<and> card (b_qName ` set (filter (passesFilters (windowBeg exVar 10 exOptions2) exOptions2)
                              (take 2 [exReadLeft, exReadLeft2, exReadMid])))
        < maxBARcount exOptions2
   \<and> maxBARcount exOptions2
        \<le> card (b_qName ` set (filter (passesFilters (windowBeg exVar 10 exOptions2) exOptions2)
                                  [exReadLeft, exReadLeft2, exReadMid]))
   \<and> passesFilters (windowBeg exVar 10 exOptions2) exOptions2 exReadMid2
   \<and> b_beginPos exReadMid2 \<le> stopReading exVar 10 exOptions2
   \<and> map_option fst
        (parseReads ([exReadLeft, exReadLeft2, exReadMid] @ [exReadMid2]) exVar 10 exOptions2)
       = Some [exReadLeft2, exReadMid]
   \<and> (\<exists>cands infos.
         parseReads ([exReadLeft, exReadLeft2, exReadMid] @ [exReadMid2]) exVar 10 exOptions2
           = Some (cands, infos)
       \<and> length infos = length cands
       \<and> distinct (map b_qName cands)
       \<and> b_qName ` set cands = {''r6'', ''r5''}
       \<and> (\<forall>c\<in>set cands.
              c = last (filter (\<lambda>r. passesFilters (windowBeg exVar 10 exOptions2) exOptions2 r
                                     \<and> b_qName r = b_qName c)
                          [exReadLeft, exReadLeft2, exReadMid]))
       \<and> length cands \<le> 2
       \<and> (\<forall>i<length cands.
              examineBamAlignment (cands ! i) exVar
                (new_varAlignInfo (length (strSplit CHR '','' (v_alt exVar)) + 1)) exOptions2
              = Some (infos ! i)))"
proof -
  let ?pre = "[exReadLeft, exReadLeft2, exReadMid]"
  let ?P = "passesFilters (windowBeg exVar 10 exOptions2) exOptions2"
  have m: "maxBARcount exOptions2 = 2" by (simp add: exOptions2_def)
  have h1: "\<forall>r\<in>set (?pre @ [exReadMid2]). b_cigar r \<noteq> []"
    using exReads_cigar by simp
  have r: "b_beginPos exReadLeft \<le> stopReading exVar 10 exOptions2"
    "b_beginPos exReadLeft < windowEnd exVar 10 exOptions2"
    "b_beginPos exReadLeft2 \<le> stopReading exVar 10 exOptions2"
    "b_beginPos exReadLeft2 < windowEnd exVar 10 exOptions2"
    "b_beginPos exReadMid \<le> stopReading exVar 10 exOptions2"
    "b_beginPos exReadMid < windowEnd exVar 10 exOptions2"
    unfolding exWindow2 by (simp_all add: exReads_begin)
  then have h2: "\<forall>r\<in>set ?pre. b_beginPos r \<le> stopReading exVar 10 exOptions2
         \<and> (skipRead (windowBeg exVar 10 exOptions2) exOptions2 r
             \<or> b_beginPos r < windowEnd exVar 10 exOptions2)"
    by simp
  have t: "card (b_qName ` set (filter ?P (take 0 ?pre))) < maxBARcount exOptions2"
    "card (b_qName ` set (filter ?P (take 1 ?pre))) < maxBARcount exOptions2"
    "card (b_qName ` set (filter ?P (take 2 ?pre))) < maxBARcount exOptions2"
    unfolding exWindow2 m
    by (simp_all add: exReads_pass exReads_names numeral_2_eq_2 del: set_filter)
  have h3: "\<forall>k<length ?pre. card (b_qName ` set (filter ?P (take k ?pre))) < maxBARcount exOptions2"
  proof (intro allI impI)
    fix k assume "k < length ?pre"
    then have "k = 0 \<or> k = 1 \<or> k = 2" by auto
    with t show "card (b_qName ` set (filter ?P (take k ?pre))) < maxBARcount exOptions2"
      by blast
  qed
  have c: "card (b_qName ` set (filter ?P ?pre)) = 2"
    unfolding exWindow2 by (simp add: exReads_pass exReads_names del: set_filter)
  have h4: "[exReadMid2] = []
         \<or> maxBARcount exOptions2 \<le> card (b_qName ` set (filter ?P ?pre))
         \<or> b_beginPos (hd [exReadMid2]) > stopReading exVar 10 exOptions2
         \<or> (\<not> skipRead (windowBeg exVar 10 exOptions2) exOptions2 (hd [exReadMid2])
             \<and> b_beginPos (hd [exReadMid2]) \<ge> windowEnd exVar 10 exOptions2)"
    unfolding c m by simp
  have n: "b_qName ` set (filter ?P ?pre) = {''r6'', ''r5''}"
    unfolding exWindow2 by (simp add: exReads_pass exReads_names del: set_filter)
  have p4: "?P exReadMid2" "b_beginPos exReadMid2 \<le> stopReading exVar 10 exOptions2"
    unfolding exWindow2 by (simp_all add: exReads_pass exReads_begin)
  have c2: "maxBARcount exOptions2 \<le> card (b_qName ` set (filter ?P ?pre))"
    unfolding c m by simp
  from parseReads_selection[OF h1 h2 h3 h4]
  have "\<exists>cands infos.
         parseReads (?pre @ [exReadMid2]) exVar 10 exOptions2 = Some (cands, infos)
       \<and> length infos = length cands
       \<and> distinct (map b_qName cands)
       \<and> b_qName ` set cands = {''r6'', ''r5''}
       \<and> (\<forall>c\<in>set cands. c = last (filter (\<lambda>r. ?P r \<and> b_qName r = b_qName c) ?pre))
       \<and> length cands \<le> 2
       \<and> (\<forall>i<length cands.
              examineBamAlignment (cands ! i) exVar
                (new_varAlignInfo (length (strSplit CHR '','' (v_alt exVar)) + 1)) exOptions2
              = Some (infos ! i))"
    unfolding n m .
  with exReads_cigar r t c2 p4 exReads_selected show ?thesis by blast
qed


lemma exReadInside_passes: "passesFilters (windowBeg exVar 10 exOptions) exOptions exReadInside"
  by (simp add: passesFilters_def skipRead_def keepRead_def softClipRemove_def hardClipped_def
        hasFlagDuplicate_def hasFlagQCNoPass_def getAlignmentLengthInRef_def windowBeg_def
        exVar_def exOptions_def exReadInside_def)

text \<open>
  Claim C2 as stated fails at the left breakpoint: a read that begins at 495, inside the
  window \<open>[490, 510)\<close> and before its end, passes all filters and is the only read, with
  room for 200 candidates; it is not selected, because the loop stops at the first read that
  begins after \<open>B - W = 490\<close>.
\<close>

theorem parseReads_window_counterexample:
  "windowBeg exVar 10 exOptions \<le> b_beginPos exReadInside
   \<and> b_beginPos exReadInside < windowEnd exVar 10 exOptions
   \<and> passesFilters (windowBeg exVar 10 exOptions) exOptions exReadInside
   \<and> 0 < maxBARcount exOptions
   \<and> parseReads [exReadInside] exVar 10 exOptions = Some ([], [])"
proof -
  have "parseReads [exReadInside] exVar 10 exOptions = Some ([], [])"
    by (simp add: parseReads_def stopReading_def windowBeg_def windowEnd_def exVar_def
          exOptions_def exReadInside_def)
  with exReadInside_passes show ?thesis
    by (simp add: windowBeg_def windowEnd_def exVar_def exOptions_def exReadInside_def)
qed

section \<open>A read that ends before the window, with a gap in its alignment\<close>

lemma exReadGap_examined:
  "examineBamAlignment exReadGap exVarX (new_varAlignInfo 2) exOptions = Some exVaiGap"
  by (simp add: examineBamAlignment_def reset_def new_varAlignInfo_def infoStep_def
        exReadGap_def exVarX_def exOptions_def exVaiGap_def Let_def numeral_2_eq_2)

lemma exReadGap_selected:
  "parseReads [exReadGap] exVarX 4 exOptions = Some ([exReadGap], [exVaiGap])"
proof -
  have n: "length (strSplit CHR '','' (v_alt exVarX)) + 1 = 2" by (simp add: exVarX_def)
  have k: "\<not> skipRead 6 exOptions exReadGap" "keepRead exOptions exReadGap"
    by (simp_all add: skipRead_def keepRead_def softClipRemove_def hardClipped_def
          hasFlagDuplicate_def hasFlagQCNoPass_def getAlignmentLengthInRef_def
          exReadGap_def exOptions_def)
  have w: "windowBeg exVarX 4 exOptions = 6" "windowEnd exVarX 4 exOptions = 14"
    "stopReading exVarX 4 exOptions = 6"
    by (simp_all add: windowBeg_def windowEnd_def stopReading_def exVarX_def exOptions_def)
  have b: "b_beginPos exReadGap = 2" "b_qName exReadGap = ''r8''" by (simp_all add: exReadGap_def)
  have m: "maxBARcount exOptions = 200" by (simp add: exOptions_def)
  show ?thesis
    unfolding parseReads_def Let_def n w
    by (simp add: k b m exReadGap_examined addCandidate_def)
qed

lemma exReadGap_crop: "cropSeq exReadGap exVarX 4 exOptions = Some (13, 10, None)"
  by (simp add: cropSeq_def cropBounds_def cropClamp_def exReadGap_def exVarX_def exOptions_def
        Let_def)

lemma exReadGap_crop_right:
  "cropSeq exReadGap exVarX 4 (exOptions\<lparr>genotypeRightBreakpoint := True\<rparr>)
     = Some (9, 10, Some [DnaC])"
  by (simp add: cropSeq_def cropBounds_def cropClamp_def infixWithLength_def toDna5_def
        exReadGap_def exVarX_def exOptions_def Let_def)

lemma exReadGap_not_aligned:
  "LRprocessReads aligner exVarX ''chr1'' exFai [exReadGap] [exVaiGap] 4 exOptions = None"
proof -
  have o: "\<not> outputRefAlt exOptions" "\<not> mask exOptions" "cropRead exOptions"
    by (simp_all add: exOptions_def)
  obtain r a where g: "getLocRefAlt exVarX exFai ''chr1'' 4 exOptions = (r, a)"
    by (cases "getLocRefAlt exVarX exFai ''chr1'' 4 exOptions")
  show ?thesis
    unfolding LRprocessReads_def g Let_def prod.case
    by (simp add: o alignRead_def exReadGap_crop)
qed

text \<open>
  Claim C9 does not hold of the code. The read \<open>r8\<close> begins at position 2 with the CIGAR
  \<open>1M 100N 9I\<close> and 10 bases; the variant is at position 10 and \<open>wSizeActual = 4\<close>, so
  \<open>searchPos = 6\<close>. The read selector takes the read (with the skipped region \<open>N\<close> its
  alignment reaches beyond the begin of the window), but the walk of \<^verbatim>\<open>cropSeq\<close>, in which
  \<open>N\<close> does not advance, ends at position 3: \<open>rShift = - 3\<close>, and after the clamps
  \<open>rBeg = 13 > rEnd = 10 = length seq\<close>. The decrement for \<open>rBeg = rEnd\<close> does not apply, and
  \<^verbatim>\<open>infixWithLength\<close> is called with a begin behind the end of the sequence and a negative
  length: there is no cropped sequence and no alignment of the read. At the right
  breakpoint the same read is cropped to its last base.
\<close>

theorem cropSeq_gap_read_invalid:
  "parseReads [exReadGap] exVarX 4 exOptions = Some ([exReadGap], [exVaiGap])
   \<and> b_seq exReadGap \<noteq> []
   \<and> cropSeq exReadGap exVarX 4 exOptions = Some (13, 10, None)
   \<and> LRprocessReads aligner exVarX ''chr1'' exFai [exReadGap] [exVaiGap] 4 exOptions = None
   \<and> cropSeq exReadGap exVarX 4 (exOptions\<lparr>genotypeRightBreakpoint := True\<rparr>)
       = Some (9, 10, Some [DnaC])"
  using exReadGap_selected exReadGap_crop exReadGap_not_aligned exReadGap_crop_right
  by (simp add: exReadGap_def)

section \<open>A variant on a contig that the reference index does not have\<close>

lemma aggregateRead_length: "length (aggregateRead nAlts prefs vC) = length vC"
proof -
  let ?p = "normalise prefs (nAlts + 1) (minPref prefs (nAlts + 1))"
  obtain vC' c' where s: "pairLoops ?p (nAlts + 1) (vC, 0) = (vC', c')"
    by (cases "pairLoops ?p (nAlts + 1) (vC, 0)")
  from pairLoops_inv[where prefs = ?p and n = "nAlts + 1" and vC = vC] s
  have "length vC' = length vC" by simp
  then show ?thesis using s by (simp add: aggregateRead_def Let_def)
qed

lemma fold_readStep_lengths:
  "(case fold (readStep gtm w opts refLen altLens) vais (vC, rI, VAs, Q) of
      (vC', rI', VAs', Q') \<Rightarrow>
        length vC' = length vC \<and> length rI' = length rI \<and> length VAs' = length VAs
      \<and> length Q' = length Q)"
proof (induction vais arbitrary: vC rI VAs Q)
  case Nil
  then show ?case by simp
next
  case (Cons vai vais)
  obtain p r v q where sc: "scoreRead gtm vai w opts refLen altLens (rI, VAs, Q) = (p, r, v, q)"
    by (cases "scoreRead gtm vai w opts refLen altLens (rI, VAs, Q)") auto
  from scoreRead_lengths[where gtm = gtm and vai = vai and w = w and opts = opts
         and refLen = refLen and altLens = altLens and rI = rI and VAs = VAs and Q = Q] sc
  have l: "length r = length rI" "length v = length VAs" "length q = length Q" by simp_all
  have st: "readStep gtm w opts refLen altLens vai (vC, rI, VAs, Q)
              = (aggregateRead (length altLens) p vC, r, v, q)"
    using sc by (simp add: readStep_def)
  from Cons[of "aggregateRead (length altLens) p vC" r v q] l aggregateRead_length[of "length altLens" p vC]
  show ?case by (simp add: st split: prod.splits)
qed

lemma multiUpdateVC_lengths:
  "(case multiUpdateVC var vais vC rI VAs Q w opts gtm of
      (vC', rI', VAs', Q') \<Rightarrow>
        length vC' = length vC \<and> length rI' = length rI \<and> length VAs' = length VAs
      \<and> length Q' = length Q)"
  unfolding multiUpdateVC_def Let_def by (rule fold_readStep_lengths)

lemma getGtString_Some:
  assumes "lls \<noteq> []" and "ads \<noteq> []" and "vas \<noteq> []" and "2 \<le> length va_reads"
  shows "\<exists>s. getGtString lls ads vas va_reads = Some (map uminus lls, s)"
  using assms by (simp add: getGtString_def Let_def case_prod_beta)

lemma exFai_no_chrX: "getIdByName exFai ''chrX'' = None"
  by (simp add: getIdByName_def exFai_def)

lemma exVarX_windows:
  "getLocRefAlt exVarX exFai ''chrX'' 4 exOptions = (exRefWindow, [exAltWindow])"
proof -
  have f: "v_beginPos exVarX = 10" "length (v_ref exVarX) = 1"
    "strSplit CHR '','' (v_alt exVarX) = [''GTT'']" "\<not> genotypeRightBreakpoint exOptions"
    by (simp_all add: exVarX_def exOptions_def)
  have t: "to_size (10 - int 4) = 6" "to_size (10 + int 4) = 14" "to_size 10 = 10"
    "to_size (10 + int 1) = 11" "to_size (10 + int 1 + int 4 - int (length ''GTT'')) = 12"
    by (simp_all add: to_size_def)
  have r: "readRegion exFai 0 6 14 = exRefWindow"
    "readRegion exFai 0 6 10 = [DnaG, DnaT, DnaA, DnaC]"
    "readRegion exFai 0 11 12 = [DnaT]"
    by (simp_all add: readRegion_def exFai_def toDna5_def exRefWindow_def Let_def)
  have a: "altWindow exVarX exFai 0 4 exOptions ''GTT'' = exAltWindow"
    unfolding altWindow_def Let_def f t r
    by (simp add: f toDna5_def exAltWindow_def)
  show ?thesis
    unfolding getLocRefAlt_def exFai_no_chrX option.case Let_def f t r
    by (simp add: a f)
qed

lemma exReadX_examined:
  "examineBamAlignment exReadX exVarX (new_varAlignInfo 2) exOptions = Some exVaiX"
  by (simp add: examineBamAlignment_def reset_def new_varAlignInfo_def infoStep_def
        exReadX_def exVarX_def exOptions_def exVaiX_def Let_def numeral_2_eq_2)

lemma exReadX_selected: "parseReads [exReadX] exVarX 4 exOptions = Some ([exReadX], [exVaiX])"
proof -
  have n: "length (strSplit CHR '','' (v_alt exVarX)) + 1 = 2" by (simp add: exVarX_def)
  have k: "\<not> skipRead 6 exOptions exReadX" "keepRead exOptions exReadX"
    by (simp_all add: skipRead_def keepRead_def softClipRemove_def hardClipped_def
          hasFlagDuplicate_def hasFlagQCNoPass_def getAlignmentLengthInRef_def
          exReadX_def exOptions_def)
  have w: "windowBeg exVarX 4 exOptions = 6" "windowEnd exVarX 4 exOptions = 14"
    "stopReading exVarX 4 exOptions = 6"
    by (simp_all add: windowBeg_def windowEnd_def stopReading_def exVarX_def exOptions_def)
  have b: "b_beginPos exReadX = 2" "b_qName exReadX = ''rX''" by (simp_all add: exReadX_def)
  have m: "maxBARcount exOptions = 200" by (simp add: exOptions_def)
  show ?thesis
    unfolding parseReads_def Let_def n w
    by (simp add: k b m exReadX_examined addCandidate_def)
qed

lemma exReadX_crop:
  "cropSeq exReadX exVarX 4 exOptions = Some (4, 12, Some exAltWindow)"
  by (simp add: cropSeq_def cropBounds_def cropClamp_def infixWithLength_def toDna5_def
        exReadX_def exVarX_def exOptions_def exAltWindow_def Let_def)

lemma exReadX_aligned:
  "LRprocessReads aligner exVarX ''chrX'' exFai [exReadX] [exVaiX] 4 exOptions =
     Some [exVaiX\<lparr>alignS :=
             map (\<lambda>j. real_of_int
                    (aligner exOptions False exAltWindow [exRefWindow, exAltWindow] (- 8) 8 ! j))
               [0..<2]\<rparr>]"
proof -
  have o: "\<not> outputRefAlt exOptions" "\<not> mask exOptions" "cropRead exOptions"
    "bandedAlignmentPercent exOptions = 100"
    by (simp_all add: exOptions_def)
  have l: "length exRefWindow = 8" "length exAltWindow = 8" "length (alignS exVaiX) = 2"
    by (simp_all add: exRefWindow_def exAltWindow_def exVaiX_def)
  show ?thesis
    unfolding LRprocessReads_def exVarX_windows Let_def prod.case
    by (simp add: o l alignRead_def exReadX_crop trunc_def del: upt_Suc)
qed

text \<open>
  Claim C1 does not hold of the code. The variant is on \<open>chrX\<close>, the index has \<open>chr1\<close> only.
  \<^verbatim>\<open>getLocRefAlt\<close> goes on with \<open>idx = 0\<close> and builds both windows from \<open>chr1\<close>; the read is
  selected and aligned against these windows (whatever the aligner is); and a genotype
  string is written into the variant record.
\<close>

theorem missing_contig_is_genotyped:
  "getIdByName exFai ''chrX'' = None
   \<and> getLocRefAlt exVarX exFai ''chrX'' 4 exOptions = (exRefWindow, [exAltWindow])
   \<and> parseReads [exReadX] exVarX 4 exOptions = Some ([exReadX], [exVaiX])
   \<and> LRprocessReads aligner exVarX ''chrX'' exFai [exReadX] [exVaiX] 4 exOptions =
       Some [exVaiX\<lparr>alignS :=
               map (\<lambda>j. real_of_int
                      (aligner exOptions False exAltWindow [exRefWindow, exAltWindow] (- 8) 8 ! j))
                 [0..<2]\<rparr>]
   \<and> (\<exists>gt. processVariant aligner [exReadX] exVarX exFai ''chrX'' 4 exOptions =
         Some (exVarX\<lparr>v_genotypeInfos := [gt], v_format := ''GT:AD:VA:PL:REFREADS:ALTREADS''\<rparr>))"
proof -
  let ?vais = "[exVaiX\<lparr>alignS :=
             map (\<lambda>j. real_of_int
                    (aligner exOptions False exAltWindow [exRefWindow, exAltWindow] (- 8) 8 ! j))
               [0..<2]\<rparr>]"
  have na: "2 + count_list (v_alt exVarX) CHR '','' = 2" by (simp add: exVarX_def)
  have gm: "gtModel exOptions = joint" by (simp add: exOptions_def)
  obtain vC AD VA Q where mu: "multiUpdateVC exVarX ?vais (replicate 3 0)
       (replicate 3 0) (replicate 3 0) (replicate 3 []) 4 exOptions joint
         = (vC, AD, VA, Q)"
    by (cases "multiUpdateVC exVarX ?vais (replicate 3 0)
       (replicate 3 0) (replicate 3 0) (replicate 3 []) 4 exOptions joint") auto
  from multiUpdateVC_lengths[where var = exVarX and vais = ?vais
         and vC = "replicate 3 0" and rI = "replicate 3 0"
         and VAs = "replicate 3 0" and Q = "replicate 3 []" and w = 4
         and opts = exOptions and gtm = joint] mu
  have len: "length vC = 3" "length AD = 3" "length VA = 3" "length Q = 3" by simp_all
  then have ne: "vC \<noteq> []" "AD \<noteq> []" "VA \<noteq> []" "2 \<le> length Q" by auto
  from getGtString_Some[OF ne] obtain gt
    where gt: "getGtString vC AD VA Q = Some (map uminus vC, gt)" by blast
  have gi: "(v_genotypeInfos exVarX)[0 := gt] = [gt]" by (simp add: exVarX_def)
  have "processVariant aligner [exReadX] exVarX exFai ''chrX'' 4 exOptions =
         Some (exVarX\<lparr>v_genotypeInfos := [gt], v_format := ''GT:AD:VA:PL:REFREADS:ALTREADS''\<rparr>)"
    unfolding processVariant_def Let_def na gm exReadX_selected option.case prod.case
      exReadX_aligned
    by (simp add: modelRow_def mu writeRow_def gt gi)
  with exFai_no_chrX exVarX_windows exReadX_selected exReadX_aligned show ?thesis by blast
qed

end
